theory Spec2Isabelle
  imports Main
begin

section \<open>Positions, files and file sets (package go/token)\<close>

text \<open>
  The program works on the position bookkeeping of Go's standard library. A
  \<open>token.Pos\<close> is an integer; \<open>NoPos\<close> is zero. A \<open>token.File\<close> has a base, a
  size, the table \<open>lines\<close> of the offsets at which its lines start (ascending,
  the first one 0) and the table \<open>infos\<close> of the alternative line numbers that
  \<open>//line\<close> directives give: an entry says that the line starting at \<open>Offset\<close> is
  to be reported as line \<open>AltLine\<close>. Of an entry only these two fields bear on a
  line number; its file name and column are left out. Only the parts that
  \<open>main.go\<close> calls are modelled: \<open>File.Line\<close>, \<open>File.MergeLine\<close> and
  \<open>FileSet.File\<close>. Go's \<open>int\<close> is modelled as \<open>int\<close>; the numbers are byte offsets
  and line counts of one source file.
\<close>

type_synonym Pos = int

definition NoPos :: Pos where
  "NoPos = 0"

record lineInfo =
  Offset :: int
  AltLine :: int

record File =
  base :: int
  fsize :: int
  lines :: "int list"
  infos :: "lineInfo list"

type_synonym FileSet = "File list"

text \<open>
  Every way the program can stop without a result: the errors that \<open>format\<close> and
  \<open>findImportBounds\<close> return, and the panics of \<open>main.go\<close> and of the library calls
  it makes.
\<close>

datatype error =
    ErrSyntax
  | ErrNotMultipleImports
  | ErrNonBlockImport
  | ErrPrinter
  | PanicFilesUnequal
  | PanicInvalidLine
  | PanicNilDereference
  | PanicIndexOutOfRange
  | PanicScannerInit

text \<open>
  \<open>sort.Search n f\<close>: the smallest index in \<open>[0, n)\<close> at which \<open>f\<close> holds, and \<open>n\<close>
  when there is none (\<open>f\<close> is false on a prefix and true on the rest).
\<close>

definition sortSearch :: "nat \<Rightarrow> (nat \<Rightarrow> bool) \<Rightarrow> nat" where
  "sortSearch n f = length (takeWhile (\<lambda>i. \<not> f i) [0..<n])"

text \<open>
  \<open>searchInts a x\<close> is \<open>sort.Search(len(a), func(i) { return a[i] > x }) - 1\<close>: the
  index of the last entry that is at most \<open>x\<close>, or -1.
\<close>

definition searchInts :: "int list \<Rightarrow> int \<Rightarrow> int" where
  "searchInts a x = int (sortSearch (length a) (\<lambda>i. a ! i > x)) - 1"

text \<open>
  An offset outside the file is clamped to it (older releases of the library
  panic there instead). \<open>squashBlankImportLines\<close> looks up only positions that
  \<open>FileSet.File\<close> has found in the file.
\<close>

definition fixOffset :: "File \<Rightarrow> int \<Rightarrow> int" where
  "fixOffset f offset =
     (if offset < 0 then 0 else if offset > fsize f then fsize f else offset)"

definition searchLineInfos :: "lineInfo list \<Rightarrow> int \<Rightarrow> int" where
  "searchLineInfos a x = int (sortSearch (length a) (\<lambda>i. Offset (a ! i) > x)) - 1"

text \<open>
  \<open>File.Line p\<close> is \<open>File.Position(p).Line\<close>, the line adjusted by the line infos,
  and 0 for \<open>NoPos\<close>. \<open>unpackLine\<close> is the line that \<open>File.unpack\<close> computes for an
  offset: the 1-based index of the line in the table and, when the file has line
  infos and one of them lies at or before the offset, the line of that info plus
  the distance between the two lines in the table.
\<close>

definition unpackLine :: "File \<Rightarrow> int \<Rightarrow> int" where
  "unpackLine f offset =
     (let line = searchInts (lines f) offset + 1 in
      if infos f \<noteq> [] then
        (let i = searchLineInfos (infos f) offset in
         if i \<ge> 0 then
           (let alt = infos f ! nat i; j = searchInts (lines f) (Offset alt) in
            if j \<ge> 0 then AltLine alt + (line - (j + 1)) else line)
         else line)
      else line)"

definition Line :: "File \<Rightarrow> Pos \<Rightarrow> int" where
  "Line f p =
     (if p = NoPos then 0
      else unpackLine f (fixOffset f (p - base f)))"

text \<open>
  \<open>File.MergeLine line\<close> panics on a line below 1 and on the last line; otherwise
  it deletes the table entry of line \<open>line + 1\<close>, which sits at index \<open>line\<close>. Its
  argument is a line of the table, not an adjusted one, and it leaves the line
  infos alone.
\<close>

definition MergeLine :: "int \<Rightarrow> File \<Rightarrow> error + File" where
  "MergeLine line f =
     (if line < 1 then Inl PanicInvalidLine
      else if line \<ge> int (length (lines f)) then Inl PanicInvalidLine
      else Inr (f\<lparr>lines := take (nat line) (lines f) @ drop (nat line + 1) (lines f)\<rparr>))"

definition searchFiles :: "File list \<Rightarrow> int \<Rightarrow> int" where
  "searchFiles a x = int (sortSearch (length a) (\<lambda>i. base (a ! i) > x)) - 1"

text \<open>
  \<open>FileSet.File p\<close>: the file whose range \<open>[base, base + size]\<close> holds \<open>p\<close>. A
  \<open>*token.File\<close> is modelled as the index of the file in the set, \<open>nil\<close> as \<open>None\<close>.
  The set's cache of the file found last does not change the answer and is left
  out.
\<close>

definition FileSet_File :: "FileSet \<Rightarrow> Pos \<Rightarrow> nat option" where
  "FileSet_File s p =
     (if p = NoPos then None
      else let i = searchFiles s p in
        if i \<ge> 0 \<and> p \<le> base (s ! nat i) + fsize (s ! nat i) then Some (nat i)
        else None)"

text \<open>
  The two method calls through a file pointer. On a nil pointer \<open>Line\<close> still
  answers 0 for \<open>NoPos\<close> and \<open>MergeLine\<close> still rejects a line below 1 before any
  field is read; everything else dereferences nil.
\<close>

definition ptr_Line :: "FileSet \<Rightarrow> nat option \<Rightarrow> Pos \<Rightarrow> error + int" where
  "ptr_Line fset fp p =
     (case fp of
        None \<Rightarrow> if p = NoPos then Inr 0 else Inl PanicNilDereference
      | Some i \<Rightarrow> Inr (Line (fset ! i) p))"

definition ptr_MergeLine :: "nat option \<Rightarrow> int \<Rightarrow> FileSet \<Rightarrow> error + FileSet" where
  "ptr_MergeLine fp line fset =
     (case fp of
        None \<Rightarrow> if line < 1 then Inl PanicInvalidLine else Inl PanicNilDereference
      | Some i \<Rightarrow>
          (case MergeLine line (fset ! i) of
             Inl e \<Rightarrow> Inl e
           | Inr f' \<Rightarrow> Inr (fset[i := f'])))"

section \<open>Syntax tree nodes (package go/ast)\<close>

text \<open>
  Of an import spec and of a comment group the program reads \<open>Pos()\<close> and \<open>End()\<close>
  only. \<open>ast.Node\<close> is the interface they share; the constructor records which of
  the two a node is.
\<close>

datatype ImportSpec = ImportSpec (imp_Pos: Pos) (imp_End: Pos)

datatype CommentGroup = CommentGroup (cm_Pos: Pos) (cm_End: Pos)

datatype Node = ImportNode ImportSpec | CommentNode CommentGroup

fun Pos :: "Node \<Rightarrow> Pos" where
  "Pos (ImportNode s) = imp_Pos s"
| "Pos (CommentNode g) = cm_Pos g"

fun End :: "Node \<Rightarrow> Pos" where
  "End (ImportNode s) = imp_End s"
| "End (CommentNode g) = cm_End g"

record 'd AstFile =
  Decls :: 'd
  Imports :: "ImportSpec list"
  Comments :: "CommentGroup list"

section \<open>main.go\<close>

subsection \<open>resliceComments\<close>

text \<open>
  The loop of \<open>resliceComments\<close> over \<open>i\<close>, written over the comments from index
  \<open>i\<close> on; the pair is \<open>(cmLower, cmUpper)\<close>.
\<close>

fun resliceScan ::
  "Pos \<Rightarrow> Pos \<Rightarrow> CommentGroup list \<Rightarrow> int \<Rightarrow> int \<times> int \<Rightarrow> int \<times> int" where
  "resliceScan posStart posEnd [] i (cmLower, cmUpper) = (cmLower, cmUpper)"
| "resliceScan posStart posEnd (c # cs) i (cmLower, cmUpper) =
     (let cmLower' = (if cmLower = -1 \<and> cm_Pos c > posStart \<and> cm_Pos c < posEnd
                      then i else cmLower);
          cmUpper' = (if cmLower' \<noteq> -1 \<and> cm_Pos c < posEnd then i else cmUpper)
      in if cm_Pos c > posEnd then (cmLower', cmUpper')
         else resliceScan posStart posEnd cs (i + 1) (cmLower', cmUpper'))"

text \<open>The slice expression \<open>cm[lo : hi]\<close> for \<open>0 \<le> lo \<le> hi \<le> len(cm)\<close>.\<close>

definition slice :: "'a list \<Rightarrow> int \<Rightarrow> int \<Rightarrow> 'a list" where
  "slice xs lo hi = take (nat hi - nat lo) (drop (nat lo) xs)"

definition resliceComments :: "Pos \<Rightarrow> Pos \<Rightarrow> CommentGroup list \<Rightarrow> CommentGroup list" where
  "resliceComments posStart posEnd cm =
     (case resliceScan posStart posEnd cm 0 (-1, -1) of
        (cmLower, cmUpper) \<Rightarrow>
          if cmLower = -1 then [] else slice cm cmLower (cmUpper + 1))"

subsection \<open>chooseNext\<close>

text \<open>
  \<open>chooseNext\<close> returns the chosen node and the two indices, the chosen one
  incremented when \<open>inc\<close> is set. It indexes \<open>cm\<close> without a check when \<open>imp\<close> is
  exhausted.
\<close>

definition chooseNext ::
  "ImportSpec list \<Rightarrow> CommentGroup list \<Rightarrow> nat \<Rightarrow> nat \<Rightarrow> bool \<Rightarrow> error + (Node \<times> nat \<times> nat)" where
  "chooseNext imp cm impIdx cmIdx inc =
     (if impIdx \<ge> length imp then
        (if cmIdx < length cm
         then Inr (CommentNode (cm ! cmIdx), impIdx, if inc then cmIdx + 1 else cmIdx)
         else Inl PanicIndexOutOfRange)
      else if cmIdx \<ge> length cm then
        Inr (ImportNode (imp ! impIdx), (if inc then impIdx + 1 else impIdx), cmIdx)
      else if imp_Pos (imp ! impIdx) < cm_Pos (cm ! cmIdx) then
        Inr (ImportNode (imp ! impIdx), (if inc then impIdx + 1 else impIdx), cmIdx)
      else
        Inr (CommentNode (cm ! cmIdx), impIdx, if inc then cmIdx + 1 else cmIdx))"

subsection \<open>squashBlankImportLines\<close>

text \<open>
  The inner loop \<open>for i := 0; i < n; i++ { currFile.MergeLine(currEndLine) }\<close>; the
  first argument is the number of rounds left.
\<close>

fun mergeLoop :: "nat \<Rightarrow> nat option \<Rightarrow> int \<Rightarrow> FileSet \<Rightarrow> error + FileSet" where
  "mergeLoop 0 currFile currEndLine fset = Inr fset"
| "mergeLoop (Suc k) currFile currEndLine fset =
     (case ptr_MergeLine currFile currEndLine fset of
        Inl e \<Rightarrow> Inl e
      | Inr fset' \<Rightarrow> mergeLoop k currFile currEndLine fset')"

text \<open>The body of the outer loop once \<open>curr\<close> and \<open>next\<close> (here \<open>cur\<close>, \<open>nxt\<close>) are chosen.\<close>

definition squashPair :: "FileSet \<Rightarrow> Node \<Rightarrow> Node \<Rightarrow> error + FileSet" where
  "squashPair fset cur nxt =
     (let currEnd = End cur; nextStart = Pos nxt;
          currFile = FileSet_File fset currEnd; nextFile = FileSet_File fset nextStart
      in if currFile \<noteq> nextFile then Inl PanicFilesUnequal
         else
           (case ptr_Line fset currFile currEnd of
              Inl e \<Rightarrow> Inl e
            | Inr currEndLine \<Rightarrow>
                (case ptr_Line fset currFile nextStart of
                   Inl e \<Rightarrow> Inl e
                 | Inr nextStartLine \<Rightarrow>
                     mergeLoop (nat (nextStartLine - currEndLine - 1))
                       currFile currEndLine fset)))"

function squashLoop ::
  "ImportSpec list \<Rightarrow> CommentGroup list \<Rightarrow> nat \<Rightarrow> nat \<Rightarrow> FileSet \<Rightarrow> error + FileSet" where
  "squashLoop imp cm impIdx cmIdx fset =
     (if impIdx < length imp \<or> cmIdx < length cm then
        (case chooseNext imp cm impIdx cmIdx True of
           Inl e \<Rightarrow> Inl e
         | Inr (cur, impIdx', cmIdx') \<Rightarrow>
             if impIdx' = length imp \<and> cmIdx' = length cm then Inr fset
             else
               (case chooseNext imp cm impIdx' cmIdx' False of
                  Inl e \<Rightarrow> Inl e
                | Inr (nxt, _, _) \<Rightarrow>
                    (case squashPair fset cur nxt of
                       Inl e \<Rightarrow> Inl e
                     | Inr fset' \<Rightarrow> squashLoop imp cm impIdx' cmIdx' fset')))
      else Inr fset)"
  by pat_completeness auto
termination
  by (relation "measure (\<lambda>(imp, cm, impIdx, cmIdx, fset).
        (length imp - impIdx) + (length cm - cmIdx))")
     (auto simp: chooseNext_def split: if_splits)

declare squashLoop.simps [simp del]

definition squashBlankImportLines ::
  "FileSet \<Rightarrow> Pos \<Rightarrow> Pos \<Rightarrow> ImportSpec list \<Rightarrow> CommentGroup list \<Rightarrow> error + FileSet" where
  "squashBlankImportLines fset posStart posEnd imp cm =
     (if length imp < 2 then Inr fset
      else squashLoop imp (resliceComments posStart posEnd cm) 0 0 fset)"

subsection \<open>findImportBounds\<close>

text \<open>
  The scanner (package go/scanner) is a collaborator: its token stream over the
  content is a list of positioned tokens, and once the list is used up every
  further \<open>Scan\<close> answers \<open>EOF\<close> at the end of the file. Of the token kinds the
  program tells four apart. Scanning a content again adds no line and no line
  info to its file: the parser has recorded all of them.
\<close>

datatype Token = IMPORT | LPAREN | RPAREN | STRING | EOF | OTHER

definition Scan :: "Pos \<Rightarrow> (Pos \<times> Token) list \<Rightarrow> (Pos \<times> Token) \<times> (Pos \<times> Token) list" where
  "Scan eofPos s = (case s of [] \<Rightarrow> ((eofPos, EOF), []) | t # ts \<Rightarrow> (t, ts))"

text \<open>
  The \<open>for\<close> loop of \<open>findImportBounds\<close> has no exit but its two \<open>return\<close>s, so it
  is a partial function: \<open>None\<close> is the loop that never returns.
\<close>

partial_function (option) findImportBounds_loop ::
  "Pos \<Rightarrow> (Pos \<times> Token) list \<Rightarrow> bool \<Rightarrow> Pos \<Rightarrow> Pos \<Rightarrow> (error + Pos \<times> Pos) option" where
  "findImportBounds_loop eofPos s found start endp =
     (case Scan eofPos s of
        ((pos, tok), s') \<Rightarrow>
          if found then
            if tok = STRING \<and> start = 0 then Some (Inl ErrNonBlockImport)
            else if tok = LPAREN then findImportBounds_loop eofPos s' found pos endp
            else if tok = RPAREN then Some (Inr (start, pos))
            else findImportBounds_loop eofPos s' found start endp
          else if tok = IMPORT then findImportBounds_loop eofPos s' True start endp
          else findImportBounds_loop eofPos s' found start endp)"

text \<open>
  \<open>s.Init\<close> reads the size of the file (a nil file is dereferenced) and panics
  when it differs from the length of the content. \<open>scanTokens\<close> is the scanner's
  token stream over the content.
\<close>

definition findImportBounds ::
  "(string \<Rightarrow> (Pos \<times> Token) list) \<Rightarrow> File option \<Rightarrow> string \<Rightarrow> ImportSpec list
     \<Rightarrow> (error + Pos \<times> Pos) option" where
  "findImportBounds scanTokens file content imp =
     (case file of
        None \<Rightarrow> Some (Inl PanicNilDereference)
      | Some f \<Rightarrow>
          if fsize f \<noteq> int (length content) then Some (Inl PanicScannerInit)
          else findImportBounds_loop (base f + fsize f) (scanTokens content) False NoPos NoPos)"

subsection \<open>format\<close>

text \<open>
  The parser and the printer are collaborators too and are parameters here:
  \<open>parseFile\<close> gives the fresh file set and the syntax tree or the parser's error,
  \<open>fprint\<close> the printed bytes or the printer's error.
\<close>

definition format ::
  "(string \<Rightarrow> error + FileSet \<times> 'd AstFile) \<Rightarrow> (string \<Rightarrow> (Pos \<times> Token) list)
     \<Rightarrow> (FileSet \<Rightarrow> 'd AstFile \<Rightarrow> error + string) \<Rightarrow> string \<Rightarrow> (error + string) option" where
  "format parseFile scanTokens fprint content =
     (case parseFile content of
        Inl err \<Rightarrow> Some (Inl err)
      | Inr (fset, file) \<Rightarrow>
          if length (Imports file) \<le> 1 then Some (Inl ErrNotMultipleImports)
          else
            (case findImportBounds scanTokens
                    (map_option (\<lambda>i. fset ! i) (FileSet_File fset 1)) content (Imports file) of
               None \<Rightarrow> None
             | Some (Inl err) \<Rightarrow> Some (Inl err)
             | Some (Inr (impStart, impEnd)) \<Rightarrow>
                 (case squashBlankImportLines fset impStart impEnd (Imports file) (Comments file) of
                    Inl err \<Rightarrow> Some (Inl err)
                  | Inr fset' \<Rightarrow>
                      (case fprint fset' file of
                         Inl err \<Rightarrow> Some (Inl err)
                       | Inr out \<Rightarrow> Some (Inr out)))))"

section \<open>Notions used to state the properties\<close>

subsection \<open>Well-formed files and positions inside them\<close>

text \<open>
  What \<open>FileSet.AddFile\<close> and the parser establish for a file that has no
  \<open>//line\<close> directive: a base of at least 1, a table that starts with offset 0 and
  ascends strictly, and no line infos. A position is inside the file when it lies
  in \<open>[base, base + size]\<close>.
\<close>

definition wfFile :: "File \<Rightarrow> bool" where
  "wfFile f \<longleftrightarrow>
     1 \<le> base f \<and> 0 \<le> fsize f \<and> lines f \<noteq> [] \<and> hd (lines f) = 0
     \<and> sorted (lines f) \<and> distinct (lines f) \<and> infos f = []"

definition inFile :: "File \<Rightarrow> Pos \<Rightarrow> bool" where
  "inFile f p \<longleftrightarrow> base f \<le> p \<and> p \<le> base f + fsize f"

text \<open>\<open>nextStartLine - currEndLine\<close> for a pair of nodes, read in the table of \<open>f\<close>.\<close>

definition lineGap :: "File \<Rightarrow> Node \<Rightarrow> Node \<Rightarrow> int" where
  "lineGap f cur nxt = Line f (Pos nxt) - Line f (End cur)"

text \<open>The number of table entries at or below an offset: the line of that offset.\<close>

definition linesUpTo :: "int list \<Rightarrow> int \<Rightarrow> nat" where
  "linesUpTo ls x = length (filter (\<lambda>v. v \<le> x) ls)"

text \<open>
  The table after the inner loop has run for a pair whose end and start offsets
  are \<open>x\<close> and \<open>y\<close>: the entries of the lines strictly between the two are gone.
\<close>

definition closeGap :: "int list \<Rightarrow> int \<Rightarrow> int \<Rightarrow> int list" where
  "closeGap ls x y =
     take (linesUpTo ls x) ls
       @ drop (linesUpTo ls x + (linesUpTo ls y - linesUpTo ls x - 1)) ls"

subsection \<open>The order in which the walk visits the members\<close>

text \<open>
  \<open>mergeWalk\<close> lists the values that \<open>curr\<close> takes in the loop of
  \<open>squashBlankImportLines\<close>: \<open>chooseNext\<close> with \<open>inc\<close> set, until both indices are
  at the end. \<open>squashList\<close> runs the loop body over each pair of neighbours of
  such a list.
\<close>

function mergeWalk :: "ImportSpec list \<Rightarrow> CommentGroup list \<Rightarrow> nat \<Rightarrow> nat \<Rightarrow> Node list" where
  "mergeWalk imp cm impIdx cmIdx =
     (if impIdx < length imp \<or> cmIdx < length cm then
        (case chooseNext imp cm impIdx cmIdx True of
           Inl e \<Rightarrow> []
         | Inr (cur, impIdx', cmIdx') \<Rightarrow> cur # mergeWalk imp cm impIdx' cmIdx')
      else [])"
  by pat_completeness auto
termination
  by (relation "measure (\<lambda>(imp, cm, impIdx, cmIdx).
        (length imp - impIdx) + (length cm - cmIdx))")
     (auto simp: chooseNext_def split: if_splits)

declare mergeWalk.simps [simp del]

fun squashList :: "Node list \<Rightarrow> FileSet \<Rightarrow> error + FileSet" where
  "squashList (a # b # ms) fset =
     (case squashPair fset a b of
        Inl e \<Rightarrow> Inl e
      | Inr fset' \<Rightarrow> squashList (b # ms) fset')"
| "squashList ms fset = Inr fset"

text \<open>
  Members in position order that do not overlap: each one starts no later than it
  ends, and ends no later than the next one starts.
\<close>

fun spansOrdered :: "Node list \<Rightarrow> bool" where
  "spansOrdered [] = True"
| "spansOrdered [a] = (Pos a \<le> End a)"
| "spansOrdered (a # b # ms) = (Pos a \<le> End a \<and> End a \<le> Pos b \<and> spansOrdered (b # ms))"

definition spansInFile :: "File \<Rightarrow> Node list \<Rightarrow> bool" where
  "spansInFile f ms = list_all (\<lambda>m. inFile f (Pos m) \<and> inFile f (End m)) ms"

text \<open>The table after the whole walk, for a file of base \<open>b\<close>.\<close>

fun squashedLines :: "int \<Rightarrow> Node list \<Rightarrow> int list \<Rightarrow> int list" where
  "squashedLines b (a # n # ms) ls =
     squashedLines b (n # ms) (closeGap ls (End a - b) (Pos n - b))"
| "squashedLines b ms ls = ls"

text \<open>
  The number of \<open>MergeLine\<close> calls over a list of members: for each pair of
  neighbours \<open>nextStartLine - currEndLine - 1\<close> when that is positive, read in the
  table of \<open>f\<close>; \<open>mergeCallsAt\<close> is the same count on the bare table.
\<close>

fun mergeCalls :: "File \<Rightarrow> Node list \<Rightarrow> nat" where
  "mergeCalls f (a # n # ms) = nat (lineGap f a n - 1) + mergeCalls f (n # ms)"
| "mergeCalls f ms = 0"

fun mergeCallsAt :: "int \<Rightarrow> int list \<Rightarrow> Node list \<Rightarrow> nat" where
  "mergeCallsAt b ls (a # n # ms) =
     (linesUpTo ls (Pos n - b) - linesUpTo ls (End a - b) - 1) + mergeCallsAt b ls (n # ms)"
| "mergeCallsAt b ls ms = 0"

text \<open>
  What the parser gives the squasher: imports in position order and comment
  groups in position order, none overlapping the next; every import spans at
  least one byte; no comment group overlaps an import; all positions lie in the
  file.
\<close>

definition membersWellPlaced :: "File \<Rightarrow> ImportSpec list \<Rightarrow> CommentGroup list \<Rightarrow> bool" where
  "membersWellPlaced f imp cm \<longleftrightarrow>
     spansOrdered (map ImportNode imp) \<and> spansOrdered (map CommentNode cm)
     \<and> list_all (\<lambda>s. imp_Pos s < imp_End s \<and> inFile f (imp_Pos s) \<and> inFile f (imp_End s)) imp
     \<and> list_all (\<lambda>g. inFile f (cm_Pos g) \<and> inFile f (cm_End g)) cm
     \<and> list_all (\<lambda>s. list_all (\<lambda>g. imp_End s \<le> cm_Pos g \<or> cm_End g \<le> imp_Pos s) cm) imp"

text \<open>A comment group that starts strictly inside the bounds.\<close>

definition inBlock :: "Pos \<Rightarrow> Pos \<Rightarrow> CommentGroup \<Rightarrow> bool" where
  "inBlock posStart posEnd c \<longleftrightarrow> posStart < cm_Pos c \<and> cm_Pos c < posEnd"

text \<open>
  The tokens after the first \<open>import\<close> keyword of a stream (none when the stream
  has no such keyword), and the streams of such tokens on which the scan runs into
  the end: no close parenthesis at all, and no string literal before the first
  open parenthesis.
\<close>

definition afterImport :: "(Pos \<times> Token) list \<Rightarrow> (Pos \<times> Token) list" where
  "afterImport s = drop 1 (dropWhile (\<lambda>(p, t). t \<noteq> IMPORT) s)"

definition endsUnclosed :: "(Pos \<times> Token) list \<Rightarrow> bool" where
  "endsUnclosed post \<longleftrightarrow>
     list_all (\<lambda>(p, t). t \<noteq> RPAREN) post
     \<and> list_all (\<lambda>(p, t). t \<noteq> STRING) (takeWhile (\<lambda>(p, t). t \<noteq> LPAREN) post)"

subsection \<open>Example files\<close>

text \<open>
  The table of the file
  \<^verbatim>\<open>package p\n\nimport (\n\t"a"\n\n\n\t// c\n\n\t"b"\n)\n\<close>:
  import \<open>"a"\<close> at positions 22 to 25, two blank lines, the comment at 29 to 33,
  one blank line, import \<open>"b"\<close> at 36 to 39; the parentheses are at 19 and 40.
\<close>

definition exFileComment :: File where
  "exFileComment = \<lparr>base = 1, fsize = 41, lines = [0, 10, 11, 20, 25, 26, 27, 33, 34, 39], infos = []\<rparr>"

text \<open>
  The table of the file
  \<^verbatim>\<open>package p\n\nimport (\n\t"a"\n\n\t"b"\n)\n\<close>:
  import \<open>"a"\<close> at positions 22 to 25, one blank line, import \<open>"b"\<close> at 28 to 31; the
  parentheses are at 19 and 32.
\<close>

definition exFileOneBlank :: File where
  "exFileOneBlank = \<lparr>base = 1, fsize = 33, lines = [0, 10, 11, 20, 25, 26, 31], infos = []\<rparr>"

text \<open>
  The table of the file
  \<^verbatim>\<open>package p\n\nimport (\n\t"a"\n)\n\nimport "b"\n\<close>
  with two import declarations: \<open>"a"\<close> at 22 to 25 inside the parentheses at 19 and
  26, a blank line at offset 27, and \<open>"b"\<close> at 36 to 39 after them.
\<close>

definition exFileTwoDecls :: File where
  "exFileTwoDecls = \<lparr>base = 1, fsize = 39, lines = [0, 10, 11, 20, 25, 27, 28], infos = []\<rparr>"

text \<open>
  The table of the file
  \<^verbatim>\<open>package p\n\nimport (\n\t"a"\n//line foo.go:100\n\n\t"b"\n)\n\<close>:
  import \<open>"a"\<close> at positions 22 to 25, on the next line the comment
  \<^verbatim>\<open>//line foo.go:100\<close> at 26 to 43, one blank line, import \<open>"b"\<close> at 46 to 49; the
  parentheses are at 19 and 50. The directive makes the line that starts at
  offset 43 line 100.
\<close>

definition exFileLineDirective :: File where
  "exFileLineDirective =
     \<lparr>base = 1, fsize = 51, lines = [0, 10, 11, 20, 25, 43, 44, 49],
      infos = [\<lparr>Offset = 43, AltLine = 100\<rparr>]\<rparr>"

text \<open>
  The table of the one-line file \<^verbatim>\<open>package p;import(`a`);import `b`\<close>: a
  parenthesised import declaration with the single import \<^verbatim>\<open>`a`\<close> at 18 to 21,
  its parentheses at 17 and 21, and a second import declaration with \<^verbatim>\<open>`b`\<close> at
  30 to 33.
\<close>

definition exFileOneLine :: File where
  "exFileOneLine = \<lparr>base = 1, fsize = 32, lines = [0], infos = []\<rparr>"

text \<open>
  Stand-ins for the collaborators on small contents. \<open>exScan\<close> gives the token
  stream of \<^verbatim>\<open>package p;import (\<close>, of \<^verbatim>\<open>package p;import (`a`\<close>, of
  \<^verbatim>\<open>package p;import()\<close>, of \<^verbatim>\<open>package p\<close> and of the one-line file above;
  \<open>exParse\<close> gives the file set and the tree of \<^verbatim>\<open>package p\<close>, a file with no
  import, \<open>exParseTwoDecls\<close> those of the one-line file; \<open>exPrint\<close> prints nothing.
  A stream ends with the semicolon that the scanner inserts at the end of the
  content after an identifier, a string or a close parenthesis.
\<close>

definition exScan :: "string \<Rightarrow> (Pos \<times> Token) list" where
  "exScan content =
     (if content = ''package p;import ('' then
        [(1, OTHER), (9, OTHER), (10, OTHER), (11, IMPORT), (18, LPAREN)]
      else if content = ''package p;import (`a`'' then
        [(1, OTHER), (9, OTHER), (10, OTHER), (11, IMPORT), (18, LPAREN), (19, STRING), (22, OTHER)]
      else if content = ''package p;import()'' then
        [(1, OTHER), (9, OTHER), (10, OTHER), (11, IMPORT), (17, LPAREN), (18, RPAREN), (19, OTHER)]
      else if content = ''package p'' then [(1, OTHER), (9, OTHER), (10, OTHER)]
      else if content = ''package p;import(`a`);import `b`'' then
        [(1, OTHER), (9, OTHER), (10, OTHER), (11, IMPORT), (17, LPAREN), (18, STRING),
         (21, RPAREN), (22, OTHER), (23, IMPORT), (30, STRING), (33, OTHER)]
      else [])"

definition exFile18 :: File where
  "exFile18 = \<lparr>base = 1, fsize = 18, lines = [0], infos = []\<rparr>"

definition exFile21 :: File where
  "exFile21 = \<lparr>base = 1, fsize = 21, lines = [0], infos = []\<rparr>"

definition exFile9 :: File where
  "exFile9 = \<lparr>base = 1, fsize = 9, lines = [0], infos = []\<rparr>"

definition exParse :: "string \<Rightarrow> error + FileSet \<times> unit AstFile" where
  "exParse content = Inr ([exFile9], \<lparr>Decls = (), Imports = [], Comments = []\<rparr>)"

definition exParseTwoDecls :: "string \<Rightarrow> error + FileSet \<times> unit AstFile" where
  "exParseTwoDecls content =
     Inr ([exFileOneLine],
          \<lparr>Decls = (), Imports = [ImportSpec 18 21, ImportSpec 30 33], Comments = []\<rparr>)"

definition exPrint :: "FileSet \<Rightarrow> unit AstFile \<Rightarrow> error + string" where
  "exPrint fset file = Inr []"

section \<open>Lemmas\<close>

subsection \<open>The line table\<close>

lemma sortSearch_nth: "sortSearch (length a) (\<lambda>i. P (a ! i)) = length (takeWhile (\<lambda>v. \<not> P v) a)"
proof -
  have "takeWhile (\<lambda>v. \<not> P v) (map (\<lambda>i. a ! i) [0..<length a])
        = map (\<lambda>i. a ! i) (takeWhile ((\<lambda>v. \<not> P v) \<circ> (\<lambda>i. a ! i)) [0..<length a])"
    by (rule takeWhile_map)
  then have "length (takeWhile (\<lambda>v. \<not> P v) a) = length (takeWhile (\<lambda>i. \<not> P (a ! i)) [0..<length a])"
    by (simp add: map_nth comp_def)
  then show ?thesis by (simp add: sortSearch_def)
qed

lemma takeWhile_le_sorted:
  "sorted (ls :: int list) \<Longrightarrow> takeWhile (\<lambda>v. v \<le> x) ls = filter (\<lambda>v. v \<le> x) ls"
proof (induction ls)
  case Nil then show ?case by simp
next
  case (Cons a ls)
  show ?case
  proof (cases "a \<le> x")
    case True with Cons show ?thesis by simp
  next
    case False
    with Cons.prems have "\<forall>v\<in>set ls. \<not> v \<le> x" by auto
    then have "filter (\<lambda>v. v \<le> x) ls = []" by (simp add: filter_empty_conv)
    with False show ?thesis by simp
  qed
qed

lemma searchInts_sorted:
  "sorted ls \<Longrightarrow> searchInts ls x + 1 = int (linesUpTo ls x)"
  using sortSearch_nth [of ls "\<lambda>v. v > x"]
  by (simp add: searchInts_def linesUpTo_def not_less takeWhile_le_sorted)

lemma take_linesUpTo:
  "sorted ls \<Longrightarrow> take (linesUpTo ls x) ls = filter (\<lambda>v. v \<le> x) ls"
  unfolding linesUpTo_def
  by (metis takeWhile_le_sorted takeWhile_eq_take)

lemma drop_linesUpTo:
  "sorted ls \<Longrightarrow> drop (linesUpTo ls x) ls = filter (\<lambda>v. \<not> v \<le> x) ls"
proof (induction ls)
  case Nil then show ?case by (simp add: linesUpTo_def)
next
  case (Cons a ls)
  show ?case
  proof (cases "a \<le> x")
    case True with Cons show ?thesis by (simp add: linesUpTo_def)
  next
    case False
    with Cons.prems have *: "\<forall>v\<in>set ls. \<not> v \<le> x" by auto
    then have "filter (\<lambda>v. v \<le> x) ls = []" by (simp add: filter_empty_conv)
    moreover from * have "filter (\<lambda>v. \<not> v \<le> x) ls = ls" by (simp add: filter_id_conv)
    ultimately show ?thesis using False by (simp add: linesUpTo_def)
  qed
qed

lemma linesUpTo_take:
  assumes "sorted ls" shows "linesUpTo (take n ls) x = min n (linesUpTo ls x)"
proof -
  have ls: "ls = filter (\<lambda>v. v \<le> x) ls @ filter (\<lambda>v. \<not> v \<le> x) ls"
    using take_linesUpTo [OF assms, of x] drop_linesUpTo [OF assms, of x]
    by (metis append_take_drop_id)
  have "filter (\<lambda>v. v \<le> x) (take n ls) = take n (filter (\<lambda>v. v \<le> x) ls)"
  proof -
    have a: "filter (\<lambda>v. v \<le> x) (take n (filter (\<lambda>v. v \<le> x) ls)) = take n (filter (\<lambda>v. v \<le> x) ls)"
      by (rule filter_True) (auto dest: in_set_takeD)
    have b: "filter (\<lambda>v. v \<le> x) (take m (filter (\<lambda>v. \<not> v \<le> x) ls)) = []" for m
      by (rule filter_False) (auto dest: in_set_takeD)
    have "filter (\<lambda>v. v \<le> x) (take n ls) =
          filter (\<lambda>v. v \<le> x) (take n (filter (\<lambda>v. v \<le> x) ls @ filter (\<lambda>v. \<not> v \<le> x) ls))"
      using ls by simp
    also have "\<dots> = take n (filter (\<lambda>v. v \<le> x) ls)"
      using a b by simp
    finally show ?thesis .
  qed
  then show ?thesis by (simp add: linesUpTo_def)
qed

lemma linesUpTo_drop:
  assumes "sorted ls" shows "linesUpTo (drop n ls) x = linesUpTo ls x - n"
proof -
  have "linesUpTo ls x = linesUpTo (take n ls) x + linesUpTo (drop n ls) x"
    unfolding linesUpTo_def by (metis append_take_drop_id filter_append length_append)
  moreover have "linesUpTo (drop n ls) x \<le> length ls - n"
    unfolding linesUpTo_def by (metis length_drop length_filter_le)
  moreover have "linesUpTo ls x \<le> length ls" unfolding linesUpTo_def by simp
  ultimately show ?thesis using linesUpTo_take [OF assms, of n x]
    by linarith
qed

lemma linesUpTo_append: "linesUpTo (a @ b) x = linesUpTo a x + linesUpTo b x"
  by (simp add: linesUpTo_def)

lemma linesUpTo_le_length: "linesUpTo ls x \<le> length ls"
  by (simp add: linesUpTo_def)

lemma linesUpTo_mono: "x \<le> y \<Longrightarrow> linesUpTo ls x \<le> linesUpTo ls y"
proof (induction ls)
  case Nil then show ?case by (simp add: linesUpTo_def)
next
  case (Cons a ls) then show ?case by (auto simp: linesUpTo_def)
qed

lemma linesUpTo_pos: "ls \<noteq> [] \<Longrightarrow> hd ls \<le> x \<Longrightarrow> 1 \<le> linesUpTo ls x"
  by (cases ls) (auto simp: linesUpTo_def)

subsection \<open>Lines and files of a single well-formed file\<close>

lemma Line_count:
  assumes "wfFile f" "inFile f p"
  shows "Line f p = int (linesUpTo (lines f) (p - base f))"
proof -
  from assms have "p \<noteq> NoPos" "fixOffset f (p - base f) = p - base f"
    by (auto simp: wfFile_def inFile_def NoPos_def fixOffset_def)
  moreover from assms have "sorted (lines f)" "infos f = []" by (simp_all add: wfFile_def)
  ultimately show ?thesis using searchInts_sorted [of "lines f" "p - base f"]
    by (simp add: Line_def unpackLine_def)
qed

lemma Line_ge_1:
  assumes "wfFile f" "inFile f p" shows "1 \<le> Line f p"
proof -
  from assms have "lines f \<noteq> []" "hd (lines f) \<le> p - base f"
    by (auto simp: wfFile_def inFile_def)
  then have "1 \<le> linesUpTo (lines f) (p - base f)" by (rule linesUpTo_pos)
  then show ?thesis using Line_count [OF assms] by simp
qed

lemma FileSet_File_single:
  assumes "1 \<le> base f" "inFile f p" shows "FileSet_File [f] p = Some 0"
  using assms
  by (auto simp: FileSet_File_def searchFiles_def sortSearch_def inFile_def NoPos_def)

lemma mergeLoop_single:
  "1 \<le> l \<Longrightarrow> nat l + k \<le> length (lines f) \<Longrightarrow>
   mergeLoop k (Some 0) l [f] = Inr [f\<lparr>lines := take (nat l) (lines f) @ drop (nat l + k) (lines f)\<rparr>]"
proof (induction k arbitrary: f)
  case 0 then show ?case by simp
next
  case (Suc k)
  let ?f1 = "f\<lparr>lines := take (nat l) (lines f) @ drop (nat l + 1) (lines f)\<rparr>"
  from Suc.prems have m: "ptr_MergeLine (Some 0) l [f] = Inr [?f1]"
    by (simp add: ptr_MergeLine_def MergeLine_def)
  from Suc.prems have len: "nat l + k \<le> length (lines ?f1)" by simp
  have "mergeLoop k (Some 0) l [?f1]
          = Inr [?f1\<lparr>lines := take (nat l) (lines ?f1) @ drop (nat l + k) (lines ?f1)\<rparr>]"
    by (rule Suc.IH [OF Suc.prems(1) len])
  moreover from Suc.prems have "take (nat l) (lines ?f1) = take (nat l) (lines f)" by simp
  moreover from Suc.prems have "drop (nat l + k) (lines ?f1) = drop (nat l + Suc k) (lines f)"
    by (simp add: min_absorb2 add.commute)
  ultimately show ?case using m by simp
qed

lemma squashPair_single:
  assumes wf: "wfFile f" and a: "inFile f (End a)" and b: "inFile f (Pos b)"
  shows "squashPair [f] a b
           = Inr [f\<lparr>lines := closeGap (lines f) (End a - base f) (Pos b - base f)\<rparr>]"
proof -
  let ?x = "End a - base f" and ?y = "Pos b - base f"
  let ?cx = "linesUpTo (lines f) ?x" and ?cy = "linesUpTo (lines f) ?y"
  have la: "Line f (End a) = int ?cx" and lb: "Line f (Pos b) = int ?cy"
    using Line_count [OF wf a] Line_count [OF wf b] by simp_all
  have k: "nat (int ?cy - int ?cx - 1) = ?cy - ?cx - 1" by simp
  have l1: "1 \<le> int ?cx" using Line_ge_1 [OF wf a] la by simp
  have "?cy \<le> length (lines f)" "?cx \<le> length (lines f)" by (rule linesUpTo_le_length)+
  then have len: "nat (int ?cx) + (?cy - ?cx - 1) \<le> length (lines f)" by simp
  have "mergeLoop (?cy - ?cx - 1) (Some 0) (int ?cx) [f]
          = Inr [f\<lparr>lines := take (nat (int ?cx)) (lines f) @ drop (nat (int ?cx) + (?cy - ?cx - 1)) (lines f)\<rparr>]"
    by (rule mergeLoop_single [OF l1 len])
  then show ?thesis
    using FileSet_File_single [OF _ a] FileSet_File_single [OF _ b] wf la lb k
    by (simp add: squashPair_def ptr_Line_def closeGap_def Let_def wfFile_def)
qed

subsection \<open>The table after one pair\<close>

lemma closeGap_before:
  assumes "sorted ls" "z \<le> x"
  shows "linesUpTo (closeGap ls x y) z = linesUpTo ls z"
  using linesUpTo_mono [OF assms(2), of ls]
  by (simp add: closeGap_def linesUpTo_append linesUpTo_take [OF assms(1)] linesUpTo_drop [OF assms(1)])

lemma closeGap_after:
  assumes "sorted ls" "x \<le> y" "y \<le> z"
  shows "linesUpTo (closeGap ls x y) z + (linesUpTo ls y - linesUpTo ls x - 1) = linesUpTo ls z"
  using linesUpTo_mono [OF assms(2), of ls] linesUpTo_mono [OF assms(3), of ls]
  by (simp add: closeGap_def linesUpTo_append linesUpTo_take [OF assms(1)] linesUpTo_drop [OF assms(1)])

lemma sorted_take_drop:
  "sorted (ls :: int list) \<Longrightarrow> sorted (take n ls @ drop (n + k) ls)"
proof (induction ls arbitrary: n)
  case Nil then show ?case by simp
next
  case (Cons a ls)
  show ?case
  proof (cases n)
    case 0
    with Cons.prems show ?thesis using sorted_wrt_drop [of "(\<le>)" "a # ls" k] by simp
  next
    case (Suc m)
    with Cons show ?thesis by (auto dest: in_set_takeD in_set_dropD)
  qed
qed

lemma closeGap_sorted: "sorted ls \<Longrightarrow> sorted (closeGap ls x y)"
  unfolding closeGap_def by (rule sorted_take_drop)

lemma closeGap_hd:
  assumes "ls \<noteq> []" "hd ls \<le> x"
  shows "closeGap ls x y \<noteq> [] \<and> hd (closeGap ls x y) = hd ls"
proof -
  from assms have "1 \<le> linesUpTo ls x" by (rule linesUpTo_pos)
  then obtain m where "linesUpTo ls x = Suc m" by (cases "linesUpTo ls x") auto
  with assms(1) show ?thesis by (cases ls) (auto simp: closeGap_def)
qed

lemma closeGap_length:
  "length (closeGap ls x y) + (linesUpTo ls y - linesUpTo ls x - 1) = length ls"
  using linesUpTo_le_length [of ls x] linesUpTo_le_length [of ls y]
  by (auto simp: closeGap_def)

lemma distinct_take_drop: "distinct ls \<Longrightarrow> distinct (take n ls @ drop (n + k) ls)"
proof -
  assume d: "distinct ls"
  have "ls = take n ls @ take k (drop n ls) @ drop (n + k) ls"
    by (metis append_take_drop_id drop_drop add.commute)
  with d have "distinct (take n ls @ take k (drop n ls) @ drop (n + k) ls)" by simp
  then show ?thesis by auto
qed

lemma closeGap_distinct: "distinct ls \<Longrightarrow> distinct (closeGap ls x y)"
  unfolding closeGap_def by (rule distinct_take_drop)

lemma closeGap_wf:
  assumes "wfFile f" "base f \<le> p"
  shows "wfFile (f\<lparr>lines := closeGap (lines f) (p - base f) y\<rparr>)"
  using assms closeGap_hd [of "lines f" "p - base f" y] closeGap_sorted [of "lines f" "p - base f" y]
    closeGap_distinct [of "lines f" "p - base f" y]
  by (auto simp: wfFile_def)

subsection \<open>The loop as a walk over the merged members\<close>

lemma chooseNext_ok:
  "impIdx < length imp \<or> cmIdx < length cm \<Longrightarrow>
   \<exists>n i j. chooseNext imp cm impIdx cmIdx inc = Inr (n, i, j)"
  by (auto simp: chooseNext_def)

lemma chooseNext_same_node:
  "chooseNext imp cm impIdx cmIdx False = Inr (n, i, j) \<Longrightarrow>
   chooseNext imp cm impIdx cmIdx True = Inr (n', i', j') \<Longrightarrow> n = n'"
  by (auto simp: chooseNext_def split: if_splits)

lemma chooseNext_inc_bounds:
  "chooseNext imp cm impIdx cmIdx True = Inr (n, i, j) \<Longrightarrow> impIdx \<le> length imp \<Longrightarrow> cmIdx \<le> length cm \<Longrightarrow>
   i \<le> length imp \<and> j \<le> length cm"
  by (auto simp: chooseNext_def split: if_splits)

lemma mergeWalk_done:
  "\<not> (impIdx < length imp \<or> cmIdx < length cm) \<Longrightarrow> mergeWalk imp cm impIdx cmIdx = []"
  by (subst mergeWalk.simps) simp

lemma mergeWalk_step:
  "impIdx < length imp \<or> cmIdx < length cm \<Longrightarrow>
   chooseNext imp cm impIdx cmIdx True = Inr (cur, i, j) \<Longrightarrow>
   mergeWalk imp cm impIdx cmIdx = cur # mergeWalk imp cm i j"
  by (subst mergeWalk.simps) simp

lemma squashLoop_walk:
  "impIdx \<le> length imp \<Longrightarrow> cmIdx \<le> length cm \<Longrightarrow>
   squashLoop imp cm impIdx cmIdx fset = squashList (mergeWalk imp cm impIdx cmIdx) fset"
proof (induction imp cm impIdx cmIdx fset rule: squashLoop.induct)
  case (1 imp cm impIdx cmIdx fset)
  show ?case
  proof (cases "impIdx < length imp \<or> cmIdx < length cm")
    case False
    moreover from False have "squashLoop imp cm impIdx cmIdx fset = Inr fset"
      by (subst squashLoop.simps) simp
    ultimately show ?thesis by (simp add: mergeWalk_done)
  next
    case True
    then obtain cur i j where c1: "chooseNext imp cm impIdx cmIdx True = Inr (cur, i, j)"
      using chooseNext_ok by blast
    have bnd: "i \<le> length imp" "j \<le> length cm"
      using chooseNext_inc_bounds [OF c1 "1.prems"] by simp_all
    have w1: "mergeWalk imp cm impIdx cmIdx = cur # mergeWalk imp cm i j"
      using True c1 by (rule mergeWalk_step)
    show ?thesis
    proof (cases "i = length imp \<and> j = length cm")
      case fin: True
      then have "mergeWalk imp cm i j = []" by (intro mergeWalk_done) simp
      moreover have "squashLoop imp cm impIdx cmIdx fset = Inr fset"
        using True c1 fin by (subst squashLoop.simps) simp
      ultimately show ?thesis using w1 by simp
    next
      case more: False
      with bnd have lt: "i < length imp \<or> j < length cm" by auto
      then obtain nxt i2 j2 where c2: "chooseNext imp cm i j False = Inr (nxt, i2, j2)"
        using chooseNext_ok by blast
      from lt obtain nxt' i3 j3 where c3: "chooseNext imp cm i j True = Inr (nxt', i3, j3)"
        using chooseNext_ok by blast
      have same: "nxt' = nxt" using chooseNext_same_node [OF c2 c3] by simp
      have w2: "mergeWalk imp cm i j = nxt # mergeWalk imp cm i3 j3"
        using mergeWalk_step [OF lt c3] same by simp
      have unf: "squashLoop imp cm impIdx cmIdx fset =
                   (case squashPair fset cur nxt of
                      Inl e \<Rightarrow> Inl e
                    | Inr fset' \<Rightarrow> squashLoop imp cm i j fset')"
        using True c1 more c2 by (subst squashLoop.simps) auto
      show ?thesis
      proof (cases "squashPair fset cur nxt")
        case (Inl e)
        with unf w1 w2 show ?thesis by simp
      next
        case (Inr fset')
        have "squashLoop imp cm i j fset' = squashList (mergeWalk imp cm i j) fset'"
          using "1.IH" [OF True c1 refl refl more c2 refl refl Inr bnd] .
        with unf w1 w2 Inr show ?thesis by simp
      qed
    qed
  qed
qed

lemma squashList_single:
  "wfFile f \<Longrightarrow> spansInFile f ms \<Longrightarrow>
   squashList ms [f] = Inr [f\<lparr>lines := squashedLines (base f) ms (lines f)\<rparr>]
   \<and> wfFile (f\<lparr>lines := squashedLines (base f) ms (lines f)\<rparr>)"
proof (induction "base f" ms "lines f" arbitrary: f rule: squashedLines.induct)
  case (1 a n ms)
  let ?f1 = "f\<lparr>lines := closeGap (lines f) (End a - base f) (Pos n - base f)\<rparr>"
  from "1.prems" have a: "inFile f (End a)" and n: "inFile f (Pos n)"
    by (simp_all add: spansInFile_def)
  have p: "squashPair [f] a n = Inr [?f1]"
    by (rule squashPair_single [OF "1.prems"(1) a n])
  have wf1: "wfFile ?f1"
    using closeGap_wf [OF "1.prems"(1)] a by (simp add: inFile_def)
  have in1: "spansInFile ?f1 (n # ms)"
    using "1.prems"(2) by (simp add: spansInFile_def inFile_def)
  have "squashList (n # ms) [?f1] = Inr [?f1\<lparr>lines := squashedLines (base ?f1) (n # ms) (lines ?f1)\<rparr>]
        \<and> wfFile (?f1\<lparr>lines := squashedLines (base ?f1) (n # ms) (lines ?f1)\<rparr>)"
    by (rule "1.hyps" [OF _ _ wf1 in1]) simp_all
  with p show ?case by simp
qed simp_all

subsection \<open>The table after the whole walk\<close>

lemma spansOrdered_tail: "spansOrdered (a # ms) \<Longrightarrow> spansOrdered ms"
  by (cases ms) auto

lemma spansOrdered_later:
  "spansOrdered (a # ms) \<Longrightarrow> m \<in> set ms \<Longrightarrow> End a \<le> Pos m \<and> End a \<le> End m"
proof (induction ms arbitrary: a)
  case Nil then show ?case by simp
next
  case (Cons b ms)
  show ?case
  proof (cases "m = b")
    case True
    with Cons.prems show ?thesis by (cases ms) auto
  next
    case False
    with Cons.prems have "m \<in> set ms" by simp
    moreover from Cons.prems have "spansOrdered (b # ms)" by simp
    ultimately have "End b \<le> Pos m \<and> End b \<le> End m" by (rule Cons.IH [rotated])
    moreover from Cons.prems have "End a \<le> Pos b" by simp
    moreover from Cons.prems have "Pos b \<le> End b" by (cases ms) auto
    ultimately show ?thesis by linarith
  qed
qed

lemma squashedLines_sorted: "sorted ls \<Longrightarrow> sorted (squashedLines b ms ls)"
  by (induction b ms ls rule: squashedLines.induct) (simp_all add: closeGap_sorted)

lemma squashedLines_before:
  "sorted ls \<Longrightarrow> spansOrdered ms \<Longrightarrow> ms \<noteq> [] \<Longrightarrow> z \<le> End (hd ms) - b \<Longrightarrow>
   linesUpTo (squashedLines b ms ls) z = linesUpTo ls z"
proof (induction b ms ls rule: squashedLines.induct)
  case (1 b a n ms ls)
  from "1.prems" have "z \<le> End n - b" by (cases ms) auto
  with "1.prems" have "linesUpTo (squashedLines b (n # ms) (closeGap ls (End a - b) (Pos n - b))) z
        = linesUpTo (closeGap ls (End a - b) (Pos n - b)) z"
    by (intro "1.IH") (simp_all add: closeGap_sorted)
  also have "\<dots> = linesUpTo ls z"
    using "1.prems" by (intro closeGap_before) simp_all
  finally show ?case by simp
qed simp_all

lemma closeGap_gap:
  assumes "sorted ls" "x \<le> y"
  shows "int (linesUpTo (closeGap ls x y) y) - int (linesUpTo (closeGap ls x y) x)
         = min 1 (int (linesUpTo ls y) - int (linesUpTo ls x))"
  using closeGap_before [OF assms(1), of x x y] closeGap_after [OF assms, of y]
        linesUpTo_mono [OF assms(2), of ls]
  by auto

lemma closeGap_shift:
  assumes "sorted ls" "x \<le> y" "y \<le> p" "y \<le> q"
  shows "int (linesUpTo (closeGap ls x y) q) - int (linesUpTo (closeGap ls x y) p)
         = int (linesUpTo ls q) - int (linesUpTo ls p)"
  using closeGap_after [OF assms(1,2,3)] closeGap_after [OF assms(1,2,4)]
  by linarith

lemma squashedLines_gaps:
  "sorted ls \<Longrightarrow> spansOrdered ms \<Longrightarrow> Suc k < length ms \<Longrightarrow>
   int (linesUpTo (squashedLines b ms ls) (Pos (ms ! Suc k) - b))
     - int (linesUpTo (squashedLines b ms ls) (End (ms ! k) - b))
   = min 1 (int (linesUpTo ls (Pos (ms ! Suc k) - b)) - int (linesUpTo ls (End (ms ! k) - b)))"
proof (induction b ms ls arbitrary: k rule: squashedLines.induct)
  case (1 b a n ms ls)
  let ?x = "End a - b" and ?y = "Pos n - b"
  let ?ls1 = "closeGap ls ?x ?y"
  from "1.prems" have xy: "?x \<le> ?y" and ord: "spansOrdered (n # ms)" and nn: "Pos n \<le> End n"
    by (cases ms; simp)+
  have s1: "sorted ?ls1" using "1.prems"(1) by (rule closeGap_sorted)
  show ?case
  proof (cases k)
    case 0
    have "linesUpTo (squashedLines b (n # ms) ?ls1) ?y = linesUpTo ?ls1 ?y"
      using nn by (intro squashedLines_before [OF s1 ord]) simp_all
    moreover have "linesUpTo (squashedLines b (n # ms) ?ls1) ?x = linesUpTo ?ls1 ?x"
      using nn xy by (intro squashedLines_before [OF s1 ord]) simp_all
    ultimately show ?thesis using 0 closeGap_gap [OF "1.prems"(1) xy] by simp
  next
    case (Suc j)
    with "1.prems" have j: "Suc j < length (n # ms)" by simp
    let ?p = "End ((n # ms) ! j) - b" and ?q = "Pos ((n # ms) ! Suc j) - b"
    have ih: "int (linesUpTo (squashedLines b (n # ms) ?ls1) ?q)
                - int (linesUpTo (squashedLines b (n # ms) ?ls1) ?p)
              = min 1 (int (linesUpTo ?ls1 ?q) - int (linesUpTo ?ls1 ?p))"
      by (rule "1.IH" [OF s1 ord j])
    have "(n # ms) ! Suc j \<in> set ms" using j by simp
    then have q: "?y \<le> ?q" using spansOrdered_later [OF ord] nn by fastforce
    have p: "?y \<le> ?p"
    proof (cases j)
      case 0 then show ?thesis using nn by simp
    next
      case (Suc i)
      then have "(n # ms) ! j \<in> set ms" using j by simp
      then show ?thesis using spansOrdered_later [OF ord] nn by fastforce
    qed
    show ?thesis using ih closeGap_shift [OF "1.prems"(1) xy p q] Suc by simp
  qed
qed simp_all

lemma closeGap_frame:
  assumes s: "sorted ls" and xy: "x \<le> y" and P: "\<And>e. P e \<Longrightarrow> e \<le> x \<or> y < e"
  shows "filter P (closeGap ls x y) = filter P ls"
proof -
  let ?cx = "linesUpTo ls x" and ?cy = "linesUpTo ls y"
  let ?k = "?cy - ?cx - 1"
  have split: "ls = take ?cx ls @ take ?k (drop ?cx ls) @ drop (?cx + ?k) ls"
    by (metis append_take_drop_id drop_drop add.commute)
  have mid: "filter P (take ?k (drop ?cx ls)) = []"
  proof (rule filter_False, rule ballI)
    fix e assume e: "e \<in> set (take ?k (drop ?cx ls))"
    then have "e \<in> set (drop ?cx ls)" by (rule in_set_takeD)
    then have gt: "\<not> e \<le> x" using drop_linesUpTo [OF s, of x] by simp
    have "take ?k (drop ?cx ls) = drop ?cx (take (?cx + ?k) ls)"
      by (simp add: drop_take add.commute)
    with e have "e \<in> set (take (?cx + ?k) ls)" by (auto dest: in_set_dropD)
    moreover have "?cx + ?k \<le> ?cy" using linesUpTo_mono [OF xy, of ls] by simp
    ultimately have "e \<in> set (take ?cy ls)"
      by (metis set_take_subset_set_take subsetD)
    then have "e \<le> y" using take_linesUpTo [OF s, of y] by simp
    with gt P [of e] show "\<not> P e" by auto
  qed
  have "filter P ls = filter P (take ?cx ls @ take ?k (drop ?cx ls) @ drop (?cx + ?k) ls)"
    using split by simp
  also have "\<dots> = filter P (take ?cx ls) @ filter P (drop (?cx + ?k) ls)"
    using mid by simp
  finally show ?thesis by (simp add: closeGap_def)
qed

lemma squashedLines_frame:
  "sorted ls \<Longrightarrow> spansOrdered ms \<Longrightarrow>
   (\<And>e. P e \<Longrightarrow> (\<forall>m\<in>set ms. e \<le> End m - b) \<or> (\<forall>m\<in>set ms. Pos m - b < e)) \<Longrightarrow>
   filter P (squashedLines b ms ls) = filter P ls"
proof (induction b ms ls rule: squashedLines.induct)
  case (1 b a n ms ls)
  let ?ls1 = "closeGap ls (End a - b) (Pos n - b)"
  have "filter P (squashedLines b (n # ms) ?ls1) = filter P ?ls1"
  proof (rule "1.IH")
    show "sorted ?ls1" using "1.prems"(1) by (rule closeGap_sorted)
    show "spansOrdered (n # ms)" using "1.prems"(2) by simp
    fix e assume "P e"
    from "1.prems"(3) [OF this]
    show "(\<forall>m\<in>set (n # ms). e \<le> End m - b) \<or> (\<forall>m\<in>set (n # ms). Pos m - b < e)" by auto
  qed
  also have "\<dots> = filter P ls"
  proof (rule closeGap_frame)
    show "sorted ls" by fact
    show "End a - b \<le> Pos n - b" using "1.prems"(2) by simp
    fix e assume "P e"
    from "1.prems"(3) [OF this] show "e \<le> End a - b \<or> Pos n - b < e" by auto
  qed
  finally show ?case by simp
qed simp_all

lemma closeGap_deleted:
  assumes s: "sorted ls" and d: "distinct ls" and xy: "x \<le> y"
  shows "\<exists>D. closeGap ls x y = filter (\<lambda>e. e \<notin> D) ls \<and> (\<forall>e\<in>D. x < e \<and> e \<le> y)"
proof -
  let ?cx = "linesUpTo ls x" and ?cy = "linesUpTo ls y"
  let ?k = "?cy - ?cx - 1"
  let ?A = "take ?cx ls" and ?M = "take ?k (drop ?cx ls)" and ?B = "drop (?cx + ?k) ls"
  have split: "ls = ?A @ ?M @ ?B"
    by (metis append_take_drop_id drop_drop add.commute)
  have dist: "distinct (?A @ ?M @ ?B)" using d split by simp
  have bounds: "x < e \<and> e \<le> y" if e: "e \<in> set ?M" for e
  proof -
    from e have "e \<in> set (drop ?cx ls)" by (rule in_set_takeD)
    then have gt: "\<not> e \<le> x" using drop_linesUpTo [OF s, of x] by simp
    have "?M = drop ?cx (take (?cx + ?k) ls)"
      by (simp add: drop_take add.commute)
    with e have "e \<in> set (take (?cx + ?k) ls)" by (auto dest: in_set_dropD)
    moreover have "?cx + ?k \<le> ?cy" using linesUpTo_mono [OF xy, of ls] by simp
    ultimately have "e \<in> set (take ?cy ls)"
      by (metis set_take_subset_set_take subsetD)
    then have "e \<le> y" using take_linesUpTo [OF s, of y] by simp
    with gt show ?thesis by simp
  qed
  have A: "filter (\<lambda>e. e \<notin> set ?M) ?A = ?A"
    by (rule filter_True) (use dist in auto)
  have B: "filter (\<lambda>e. e \<notin> set ?M) ?B = ?B"
    by (rule filter_True) (use dist in auto)
  have M: "filter (\<lambda>e. e \<notin> set ?M) ?M = []"
    by (rule filter_False) simp
  have "filter (\<lambda>e. e \<notin> set ?M) ls = filter (\<lambda>e. e \<notin> set ?M) (?A @ ?M @ ?B)"
    using split by simp
  also have "\<dots> = ?A @ ?B" using A B M by simp
  finally have "closeGap ls x y = filter (\<lambda>e. e \<notin> set ?M) ls" by (simp add: closeGap_def)
  with bounds show ?thesis by blast
qed

lemma squashedLines_deleted:
  "sorted ls \<Longrightarrow> distinct ls \<Longrightarrow> spansOrdered ms \<Longrightarrow>
   \<exists>D. squashedLines b ms ls = filter (\<lambda>e. e \<notin> D) ls
       \<and> (\<forall>e\<in>D. \<exists>m\<in>set ms. \<exists>m'\<in>set ms. End m - b < e \<and> e \<le> Pos m' - b)"
proof (induction b ms ls rule: squashedLines.induct)
  case (1 b a n ms ls)
  let ?x = "End a - b" and ?y = "Pos n - b"
  let ?ls1 = "closeGap ls ?x ?y"
  from "1.prems" have xy: "?x \<le> ?y" and ord: "spansOrdered (n # ms)" by simp_all
  from closeGap_deleted [OF "1.prems"(1,2) xy]
  obtain D1 where D1: "?ls1 = filter (\<lambda>e. e \<notin> D1) ls" "\<forall>e\<in>D1. ?x < e \<and> e \<le> ?y" by blast
  have "\<exists>D. squashedLines b (n # ms) ?ls1 = filter (\<lambda>e. e \<notin> D) ?ls1
       \<and> (\<forall>e\<in>D. \<exists>m\<in>set (n # ms). \<exists>m'\<in>set (n # ms). End m - b < e \<and> e \<le> Pos m' - b)"
    using "1.prems"(1,2) ord by (intro "1.IH") (simp_all add: closeGap_sorted closeGap_distinct)
  then obtain D2 where D2: "squashedLines b (n # ms) ?ls1 = filter (\<lambda>e. e \<notin> D2) ?ls1"
      "\<forall>e\<in>D2. \<exists>m\<in>set (n # ms). \<exists>m'\<in>set (n # ms). End m - b < e \<and> e \<le> Pos m' - b"
    by blast
  have "squashedLines b (a # n # ms) ls = filter (\<lambda>e. e \<notin> D1 \<union> D2) ls"
    using D1(1) D2(1) by (simp add: conj_commute)
  moreover have "\<forall>e\<in>D1 \<union> D2. \<exists>m\<in>set (a # n # ms). \<exists>m'\<in>set (a # n # ms).
                    End m - b < e \<and> e \<le> Pos m' - b"
  proof
    fix e assume "e \<in> D1 \<union> D2"
    then show "\<exists>m\<in>set (a # n # ms). \<exists>m'\<in>set (a # n # ms). End m - b < e \<and> e \<le> Pos m' - b"
    proof
      assume "e \<in> D1"
      with D1(2) have "End a - b < e \<and> e \<le> Pos n - b" by blast
      then show ?thesis by auto
    next
      assume "e \<in> D2"
      with D2(2) obtain m m' where "m \<in> set (n # ms)" "m' \<in> set (n # ms)"
        "End m - b < e \<and> e \<le> Pos m' - b" by blast
      then show ?thesis by (intro bexI [of _ m] bexI [of _ m']) auto
    qed
  qed
  ultimately show ?case by blast
qed (rule exI [of _ "{}"], simp)+

lemma mergeCallsAt_shift:
  "sorted ls \<Longrightarrow> x \<le> y \<Longrightarrow> spansOrdered ms \<Longrightarrow> (\<forall>m\<in>set ms. y \<le> Pos m - b) \<Longrightarrow>
   mergeCallsAt b (closeGap ls x y) ms = mergeCallsAt b ls ms"
proof (induction b ls ms rule: mergeCallsAt.induct)
  case (1 b ls a n ms)
  from "1.prems" have o: "Pos a \<le> End a" "End a \<le> Pos n" "y \<le> Pos a - b" by simp_all
  have "int (linesUpTo (closeGap ls x y) (Pos n - b)) - int (linesUpTo (closeGap ls x y) (End a - b))
        = int (linesUpTo ls (Pos n - b)) - int (linesUpTo ls (End a - b))"
    using o by (intro closeGap_shift "1.prems") simp_all
  then have "linesUpTo (closeGap ls x y) (Pos n - b) - linesUpTo (closeGap ls x y) (End a - b) - 1
        = linesUpTo ls (Pos n - b) - linesUpTo ls (End a - b) - 1" by linarith
  moreover have "mergeCallsAt b (closeGap ls x y) (n # ms) = mergeCallsAt b ls (n # ms)"
    using "1.prems" by (intro "1.IH") simp_all
  ultimately show ?case by simp
qed simp_all

lemma squashedLines_length:
  "sorted ls \<Longrightarrow> spansOrdered ms \<Longrightarrow>
   length (squashedLines b ms ls) + mergeCallsAt b ls ms = length ls"
proof (induction b ms ls rule: squashedLines.induct)
  case (1 b a n ms ls)
  let ?x = "End a - b" and ?y = "Pos n - b"
  let ?ls1 = "closeGap ls ?x ?y"
  from "1.prems" have xy: "?x \<le> ?y" and ord: "spansOrdered (n # ms)" and nn: "Pos n \<le> End n"
    by (cases ms; simp)+
  have "\<forall>m\<in>set (n # ms). ?y \<le> Pos m - b"
    using spansOrdered_later [OF ord] nn by fastforce
  then have "mergeCallsAt b ?ls1 (n # ms) = mergeCallsAt b ls (n # ms)"
    by (intro mergeCallsAt_shift "1.prems"(1) xy ord)
  moreover have "length (squashedLines b (n # ms) ?ls1) + mergeCallsAt b ?ls1 (n # ms) = length ?ls1"
    using "1.prems"(1) ord by (intro "1.IH") (simp_all add: closeGap_sorted)
  moreover have "length ?ls1 + (linesUpTo ls ?y - linesUpTo ls ?x - 1) = length ls"
    by (rule closeGap_length)
  ultimately show ?case by simp
qed simp_all

subsection \<open>The scan of resliceComments\<close>

text \<open>
  On comments in ascending position order the scan finds the first and the last
  index of the comments that are inside the bounds.
\<close>

lemma sorted_takeWhile_lt:
  "sorted (map cm_Pos cs) \<Longrightarrow> takeWhile (\<lambda>c. cm_Pos c < e) cs = filter (\<lambda>c. cm_Pos c < e) cs"
proof (induction cs)
  case Nil then show ?case by simp
next
  case (Cons c cs)
  show ?case
  proof (cases "cm_Pos c < e")
    case True with Cons show ?thesis by simp
  next
    case False
    with Cons.prems have "\<forall>d\<in>set cs. \<not> cm_Pos d < e" by fastforce
    then have "filter (\<lambda>c. cm_Pos c < e) cs = []" by (simp add: filter_empty_conv)
    with False show ?thesis by simp
  qed
qed

lemma resliceScan_lower_set:
  "sorted (map cm_Pos cs) \<Longrightarrow> lo \<noteq> -1 \<Longrightarrow>
   resliceScan s e cs i (lo, hi) =
     (lo, if takeWhile (\<lambda>c. cm_Pos c < e) cs = [] then hi
          else i + int (length (takeWhile (\<lambda>c. cm_Pos c < e) cs)) - 1)"
proof (induction cs arbitrary: i hi)
  case Nil then show ?case by simp
next
  case (Cons c cs)
  from Cons.prems have srt: "sorted (map cm_Pos cs)" by simp
  show ?case
  proof (cases "cm_Pos c < e")
    case True
    then show ?thesis using Cons.IH [OF srt Cons.prems(2), of "i + 1" i] Cons.prems(2) by simp
  next
    case False
    with Cons.prems have "\<forall>d\<in>set cs. \<not> cm_Pos d < e" by fastforce
    then have "takeWhile (\<lambda>c. cm_Pos c < e) cs = []" by (cases cs) auto
    then show ?thesis using False Cons.IH [OF srt Cons.prems(2), of "i + 1" hi] Cons.prems(2)
      by (cases "e < cm_Pos c") simp_all
  qed
qed

lemma resliceScan_unset:
  "sorted (map cm_Pos cs) \<Longrightarrow> 0 \<le> i \<Longrightarrow>
   (case resliceScan s e cs i (-1, -1) of
      (lo, hi) \<Rightarrow> if lo = -1 then filter (inBlock s e) cs = []
                  else i \<le> lo \<and> lo \<le> hi \<and>
                       filter (inBlock s e) cs = take (nat (hi + 1 - lo)) (drop (nat (lo - i)) cs))"
proof (induction cs arbitrary: i)
  case Nil then show ?case by simp
next
  case (Cons c cs)
  from Cons.prems have srt: "sorted (map cm_Pos cs)" by simp
  show ?case
  proof (cases "inBlock s e c")
    case True
    then have c: "s < cm_Pos c" "cm_Pos c < e" by (simp_all add: inBlock_def)
    let ?tw = "takeWhile (\<lambda>c. cm_Pos c < e) cs"
    have scan: "resliceScan s e (c # cs) i (-1, -1) = (i, i + int (length ?tw))"
      using c Cons.prems(2) resliceScan_lower_set [OF srt, of i s e "i + 1" i] by simp
    from Cons.prems c have "\<forall>d\<in>set cs. s < cm_Pos d" by fastforce
    then have "filter (inBlock s e) cs = filter (\<lambda>c. cm_Pos c < e) cs"
      by (intro filter_cong) (auto simp: inBlock_def)
    also have "\<dots> = ?tw" using sorted_takeWhile_lt [OF srt] by simp
    finally have "filter (inBlock s e) (c # cs) = c # ?tw" using True by simp
    moreover have "take (length ?tw) cs = ?tw"
      by (metis takeWhile_eq_take)
    ultimately show ?thesis using Cons.prems(2) unfolding scan by (simp add: nat_add_distrib)
  next
    case False
    show ?thesis
    proof (cases "cm_Pos c > e")
      case True
      with Cons.prems have "\<forall>d\<in>set cs. \<not> inBlock s e d" by (fastforce simp: inBlock_def)
      then have "filter (inBlock s e) cs = []" by (simp add: filter_empty_conv)
      with True False show ?thesis by (simp add: inBlock_def)
    next
      case ne: False
      have i1: "0 \<le> i + 1" using Cons.prems(2) by simp
      have scan: "resliceScan s e (c # cs) i (-1, -1) = resliceScan s e cs (i + 1) (-1, -1)"
        using False ne by (auto simp: inBlock_def Let_def)
      obtain lo hi where r: "resliceScan s e cs (i + 1) (-1, -1) = (lo, hi)"
        by (cases "resliceScan s e cs (i + 1) (-1, -1)")
      show ?thesis
      proof (cases "lo = -1")
        case True
        with Cons.IH [OF srt i1] r False show ?thesis unfolding scan by simp
      next
        case set: False
        with Cons.IH [OF srt i1] r
        have ih: "i + 1 \<le> lo" "lo \<le> hi"
          "filter (inBlock s e) cs = take (nat (hi + 1 - lo)) (drop (nat (lo - (i + 1))) cs)"
          by simp_all
        from ih(1) have "nat (lo - i) = Suc (nat (lo - (i + 1)))" by simp
        with ih set r False show ?thesis unfolding scan by simp
      qed
    qed
  qed
qed

lemma resliceComments_filter:
  assumes "sorted (map cm_Pos cm)"
  shows "resliceComments posStart posEnd cm = filter (inBlock posStart posEnd) cm"
  using resliceScan_unset [OF assms, of 0 posStart posEnd]
  by (auto simp: resliceComments_def slice_def split: prod.splits if_splits simp: nat_diff_distrib)

subsection \<open>The loop of findImportBounds\<close>

text \<open>
  Once the stream is used up every \<open>Scan\<close> answers \<open>EOF\<close>, the loop goes round with
  the same state, and there is no result.
\<close>

lemma loop_exhausted:
  "findImportBounds_loop eofPos [] found start endp = None"
proof (rule ccontr)
  assume "findImportBounds_loop eofPos [] found start endp \<noteq> None"
  then obtain r where r: "findImportBounds_loop eofPos [] found start endp = Some r" by auto
  have "s \<noteq> []" if h: "findImportBounds_loop e s fnd st en = Some y" for e s fnd st en y
  proof (rule findImportBounds_loop.raw_induct [where P = "\<lambda>e s fnd st en y. s \<noteq> []", OF _ h])
    fix f e s fnd st en y
    assume ih: "\<And>e' s' fnd' st' en' y'. f e' s' fnd' st' en' = Some y' \<Longrightarrow> s' \<noteq> []"
      and body: "(case Scan e s of
         ((pos, tok), s') \<Rightarrow>
           if fnd
           then if tok = STRING \<and> st = 0 then Some (Inl ErrNonBlockImport)
                else if tok = LPAREN then f e s' fnd pos en
                else if tok = RPAREN then Some (Inr (st, pos))
                else f e s' fnd st en
           else if tok = IMPORT then f e s' True st en
           else f e s' fnd st en) = Some y"
    show "s \<noteq> []"
    proof
      assume "s = []"
      with body have "f e [] fnd st en = Some y"
        by (auto simp: Scan_def split: if_splits)
      with ih show False by blast
    qed
  qed
  with r show False by blast
qed

lemma loop_Cons:
  "findImportBounds_loop eofPos ((pos, tok) # s) found start endp =
     (if found then
        if tok = STRING \<and> start = 0 then Some (Inl ErrNonBlockImport)
        else if tok = LPAREN then findImportBounds_loop eofPos s found pos endp
        else if tok = RPAREN then Some (Inr (start, pos))
        else findImportBounds_loop eofPos s found start endp
      else if tok = IMPORT then findImportBounds_loop eofPos s True start endp
      else findImportBounds_loop eofPos s found start endp)"
  by (subst findImportBounds_loop.simps) (simp add: Scan_def)

lemma loop_results:
  "findImportBounds_loop eofPos s found start endp = Some r \<Longrightarrow>
   r = Inl ErrNonBlockImport \<or> (\<exists>a b. r = Inr (a, b) \<and> (b, RPAREN) \<in> set s)"
proof (induction s arbitrary: found start)
  case Nil then show ?case by (simp add: loop_exhausted)
next
  case (Cons x s)
  obtain pos tok where x: "x = (pos, tok)" by (cases x)
  from Cons.prems show ?case unfolding x
    by (auto simp: loop_Cons split: if_splits dest!: Cons.IH)
qed

lemma loop_found_None:
  "list_all (\<lambda>(p, t). p \<noteq> NoPos) post \<Longrightarrow>
   findImportBounds_loop eofPos post True start endp = None
   \<longleftrightarrow> list_all (\<lambda>(p, t). t \<noteq> RPAREN) post
       \<and> (start = 0 \<longrightarrow> list_all (\<lambda>(p, t). t \<noteq> STRING) (takeWhile (\<lambda>(p, t). t \<noteq> LPAREN) post))"
proof (induction post arbitrary: start)
  case Nil show ?case by (simp add: loop_exhausted)
next
  case (Cons x post)
  obtain pos tok where x: "x = (pos, tok)" by (cases x)
  from Cons.prems x have p: "pos \<noteq> 0" and rest: "list_all (\<lambda>(p, t). p \<noteq> NoPos) post"
    by (simp_all add: NoPos_def)
  show ?case unfolding x using p Cons.IH [OF rest]
    by (cases tok) (auto simp: loop_Cons)
qed

lemma loop_None:
  "list_all (\<lambda>(p, t). p \<noteq> NoPos) s \<Longrightarrow>
   findImportBounds_loop eofPos s False NoPos endp = None \<longleftrightarrow> endsUnclosed (afterImport s)"
proof (induction s)
  case Nil show ?case by (simp add: loop_exhausted afterImport_def endsUnclosed_def)
next
  case (Cons x s)
  obtain pos tok where x: "x = (pos, tok)" by (cases x)
  from Cons.prems have rest: "list_all (\<lambda>(p, t). p \<noteq> NoPos) s" by simp
  show ?case
  proof (cases "tok = IMPORT")
    case True
    then show ?thesis unfolding x using loop_found_None [OF rest, of eofPos 0 endp]
      by (simp add: loop_Cons afterImport_def endsUnclosed_def NoPos_def)
  next
    case False
    then show ?thesis unfolding x using Cons.IH [OF rest]
      by (simp add: loop_Cons afterImport_def)
  qed
qed

subsection \<open>Members of the walk\<close>

lemma set_mergeWalk:
  "set (mergeWalk imp cm impIdx cmIdx) \<subseteq> ImportNode ` set imp \<union> CommentNode ` set cm"
proof (induction imp cm impIdx cmIdx rule: mergeWalk.induct)
  case (1 imp cm impIdx cmIdx)
  show ?case
  proof (cases "impIdx < length imp \<or> cmIdx < length cm")
    case False
    then show ?thesis by (simp add: mergeWalk_done)
  next
    case True
    then obtain cur i j where c: "chooseNext imp cm impIdx cmIdx True = Inr (cur, i, j)"
      using chooseNext_ok by blast
    have "cur \<in> ImportNode ` set imp \<union> CommentNode ` set cm"
      using c by (auto simp: chooseNext_def split: if_splits)
    moreover have "set (mergeWalk imp cm i j) \<subseteq> ImportNode ` set imp \<union> CommentNode ` set cm"
      using "1.IH" [OF True c refl refl] .
    ultimately show ?thesis using mergeWalk_step [OF True c] by simp
  qed
qed

lemma set_resliceComments: "set (resliceComments posStart posEnd cm) \<subseteq> set cm"
  by (auto simp: resliceComments_def slice_def split: prod.splits dest: in_set_takeD in_set_dropD)

lemma mergeLoop_range:
  "mergeLoop k (Some 0) l [g] = r \<Longrightarrow>
   r = Inl PanicInvalidLine \<or> (\<exists>g'. r = Inr [g'] \<and> base g' = base g \<and> fsize g' = fsize g)"
proof (induction k arbitrary: g)
  case 0 then show ?case by auto
next
  case (Suc k)
  show ?case
  proof (cases "MergeLine l g")
    case (Inl e)
    then have "e = PanicInvalidLine" by (auto simp: MergeLine_def split: if_splits)
    with Inl Suc.prems show ?thesis by (auto simp: ptr_MergeLine_def)
  next
    case (Inr g1)
    then have same: "base g1 = base g" "fsize g1 = fsize g"
      by (auto simp: MergeLine_def split: if_splits)
    from Inr Suc.prems have "mergeLoop k (Some 0) l [g1] = r" by (simp add: ptr_MergeLine_def)
    from Suc.IH [OF this] same show ?thesis by simp
  qed
qed

lemma squashPair_range:
  assumes "1 \<le> base g" "inFile g (End a)" "inFile g (Pos b)"
  shows "squashPair [g] a b = Inl PanicInvalidLine
         \<or> (\<exists>g'. squashPair [g] a b = Inr [g'] \<and> base g' = base g \<and> fsize g' = fsize g)"
proof -
  have "squashPair [g] a b = mergeLoop (nat (Line g (Pos b) - Line g (End a) - 1)) (Some 0) (Line g (End a)) [g]"
    using FileSet_File_single [OF assms(1,2)] FileSet_File_single [OF assms(1,3)]
    by (simp add: squashPair_def ptr_Line_def Let_def)
  then show ?thesis using mergeLoop_range [OF refl, of _ "Line g (End a)" g] by auto
qed

lemma squashPair_one_blank_line:
  assumes "1 \<le> base g" "inFile g (End a)" "inFile g (Pos b)" "lineGap g a b = 2"
  shows "squashPair [g] a b = ptr_MergeLine (Some 0) (Line g (End a)) [g]"
proof -
  have "nat (Line g (Pos b) - Line g (End a) - 1) = Suc 0"
    using assms(4) by (simp add: lineGap_def)
  then show ?thesis
    using FileSet_File_single [OF assms(1,2)] FileSet_File_single [OF assms(1,3)]
    by (simp add: squashPair_def ptr_Line_def Let_def split: sum.splits)
qed

lemma squashList_range:
  "1 \<le> base g \<Longrightarrow> spansInFile g ms \<Longrightarrow>
   squashList ms [g] = Inl PanicInvalidLine
   \<or> (\<exists>g'. squashList ms [g] = Inr [g'] \<and> base g' = base g \<and> fsize g' = fsize g)"
proof (induction ms "[g]" arbitrary: g rule: squashList.induct)
  case (1 a b ms)
  from "1.prems" have a: "inFile g (End a)" and b: "inFile g (Pos b)"
    by (simp_all add: spansInFile_def)
  from squashPair_range [OF "1.prems"(1) a b] show ?case
  proof
    assume "squashPair [g] a b = Inl PanicInvalidLine"
    then show ?thesis by simp
  next
    assume "\<exists>g'. squashPair [g] a b = Inr [g'] \<and> base g' = base g \<and> fsize g' = fsize g"
    then obtain g' where g': "squashPair [g] a b = Inr [g']" "base g' = base g" "fsize g' = fsize g"
      by blast
    have "spansInFile g' (b # ms)" using "1.prems"(2) g'(2,3) by (simp add: spansInFile_def inFile_def)
    moreover have "1 \<le> base g'" using "1.prems"(1) g'(2) by simp
    ultimately have "squashList (b # ms) [g'] = Inl PanicInvalidLine
       \<or> (\<exists>g''. squashList (b # ms) [g'] = Inr [g''] \<and> base g'' = base g' \<and> fsize g'' = fsize g')"
      using "1.hyps" [OF g'(1)] by blast
    with g' show ?thesis by auto
  qed
qed simp_all

lemma mergeCalls_at:
  "wfFile f \<Longrightarrow> spansInFile f ms \<Longrightarrow> mergeCalls f ms = mergeCallsAt (base f) (lines f) ms"
proof (induction f ms rule: mergeCalls.induct)
  case (1 f a n ms)
  from "1.prems" have a: "inFile f (End a)" and n: "inFile f (Pos n)" and r: "spansInFile f (n # ms)"
    by (simp_all add: spansInFile_def)
  have "nat (lineGap f a n - 1)
        = linesUpTo (lines f) (Pos n - base f) - linesUpTo (lines f) (End a - base f) - 1"
    using Line_count [OF "1.prems"(1) a] Line_count [OF "1.prems"(1) n]
    by (simp add: lineGap_def)
  with "1.IH" [OF "1.prems"(1) r] show ?case by simp
qed simp_all

lemma closeGap_id: "linesUpTo ls y - linesUpTo ls x - 1 = 0 \<Longrightarrow> closeGap ls x y = ls"
  by (simp add: closeGap_def)

lemma squashedLines_fixed: "mergeCallsAt b ls ms = 0 \<Longrightarrow> squashedLines b ms ls = ls"
  by (induction b ms ls rule: squashedLines.induct) (simp_all add: closeGap_id)

lemma squashBlankImportLines_single:
  assumes "wfFile f" "2 \<le> length imp"
    and "ms = mergeWalk imp (resliceComments posStart posEnd cm) 0 0"
    and "spansInFile f ms"
  shows "squashBlankImportLines [f] posStart posEnd imp cm
           = Inr [f\<lparr>lines := squashedLines (base f) ms (lines f)\<rparr>]"
  using assms squashList_single [of f ms]
  by (simp add: squashBlankImportLines_def squashLoop_walk)

lemma Line_squashed:
  assumes "wfFile f" "spansInFile f ms" "inFile f p"
  shows "Line (f\<lparr>lines := squashedLines (base f) ms (lines f)\<rparr>) p
           = int (linesUpTo (squashedLines (base f) ms (lines f)) (p - base f))"
proof -
  have "wfFile (f\<lparr>lines := squashedLines (base f) ms (lines f)\<rparr>)"
    using squashList_single [OF assms(1,2)] by simp
  moreover have "inFile (f\<lparr>lines := squashedLines (base f) ms (lines f)\<rparr>) p"
    using assms(3) by (simp add: inFile_def)
  ultimately show ?thesis using Line_count by fastforce
qed


lemma squashed_lineGap:
  assumes wf: "wfFile f" and ord: "spansOrdered ms" and inf: "spansInFile f ms"
    and k: "Suc k < length ms"
  shows "lineGap (f\<lparr>lines := squashedLines (base f) ms (lines f)\<rparr>) (ms ! k) (ms ! Suc k)
         = min 1 (lineGap f (ms ! k) (ms ! Suc k))"
proof -
  from inf k have a: "inFile f (End (ms ! k))" and b: "inFile f (Pos (ms ! Suc k))"
    by (simp_all add: spansInFile_def list_all_length)
  from wf have s: "sorted (lines f)" by (simp add: wfFile_def)
  show ?thesis
    using squashedLines_gaps [OF s ord k, of "base f"]
      Line_squashed [OF wf inf a] Line_squashed [OF wf inf b]
      Line_count [OF wf a] Line_count [OF wf b]
    by (simp add: lineGap_def)
qed

lemma walk_in_bounds:
  assumes imp: "\<forall>s\<in>set imp. posStart < imp_Pos s \<and> imp_Pos s < posEnd"
    and cm: "sorted (map cm_Pos cm)"
    and m: "m \<in> set (mergeWalk imp (resliceComments posStart posEnd cm) 0 0)"
  shows "posStart < Pos m \<and> Pos m < posEnd"
proof -
  from m set_mergeWalk
  have "m \<in> ImportNode ` set imp \<union> CommentNode ` set (resliceComments posStart posEnd cm)"
    by blast
  then show ?thesis
  proof
    assume "m \<in> ImportNode ` set imp"
    with imp show ?thesis by auto
  next
    assume "m \<in> CommentNode ` set (resliceComments posStart posEnd cm)"
    then show ?thesis using resliceComments_filter [OF cm, of posStart posEnd]
      by (auto simp: inBlock_def)
  qed
qed

lemma spansOrdered_Pos_le_End: "spansOrdered ms \<Longrightarrow> m \<in> set ms \<Longrightarrow> Pos m \<le> End m"
proof (induction ms rule: spansOrdered.induct)
  case (3 a b ms) then show ?case by auto
qed simp_all

lemma walk_in_file:
  assumes imp: "\<forall>s\<in>set imp. inFile f (imp_Pos s) \<and> inFile f (imp_End s)"
    and cm: "\<forall>g\<in>set cm. inFile f (cm_Pos g) \<and> inFile f (cm_End g)"
  shows "spansInFile f (mergeWalk imp (resliceComments posStart posEnd cm) impIdx cmIdx)"
proof -
  have "inFile f (Pos m) \<and> inFile f (End m)"
    if "m \<in> set (mergeWalk imp (resliceComments posStart posEnd cm) impIdx cmIdx)" for m
  proof -
    from that set_mergeWalk
    have "m \<in> ImportNode ` set imp \<union> CommentNode ` set (resliceComments posStart posEnd cm)"
      by blast
    then show ?thesis using imp cm set_resliceComments [of posStart posEnd cm] by auto
  qed
  then show ?thesis by (simp add: spansInFile_def list_all_iff)
qed

subsection \<open>A squashed table is a fixed point\<close>

text \<open>
  After the walk no pair of neighbours is more than one line apart, so a second
  walk over the same members calls \<open>MergeLine\<close> no more and leaves the table as it
  is.
\<close>

lemma mergeCallsAt_zero:
  "(\<And>k. Suc k < length ms \<Longrightarrow>
      int (linesUpTo ls (Pos (ms ! Suc k) - b)) - int (linesUpTo ls (End (ms ! k) - b)) \<le> 1) \<Longrightarrow>
   mergeCallsAt b ls ms = 0"
proof (induction b ls ms rule: mergeCallsAt.induct)
  case (1 b ls a n ms)
  have "int (linesUpTo ls (Pos n - b)) - int (linesUpTo ls (End a - b)) \<le> 1"
    using "1.prems" [of 0] by simp
  moreover have "mergeCallsAt b ls (n # ms) = 0"
  proof (rule "1.IH")
    fix k assume "Suc k < length (n # ms)"
    then show "int (linesUpTo ls (Pos ((n # ms) ! Suc k) - b))
                 - int (linesUpTo ls (End ((n # ms) ! k) - b)) \<le> 1"
      using "1.prems" [of "Suc k"] by simp
  qed
  ultimately show ?case by simp
qed simp_all

lemma squashedLines_idem:
  assumes "sorted ls" "spansOrdered ms"
  shows "squashedLines b ms (squashedLines b ms ls) = squashedLines b ms ls"
proof (rule squashedLines_fixed, rule mergeCallsAt_zero)
  fix k assume "Suc k < length ms"
  from squashedLines_gaps [OF assms this, of b]
  show "int (linesUpTo (squashedLines b ms ls) (Pos (ms ! Suc k) - b))
          - int (linesUpTo (squashedLines b ms ls) (End (ms ! k) - b)) \<le> 1"
    by simp
qed

lemma squashBlankImportLines_idem:
  assumes "wfFile f" and "2 \<le> length imp"
    and "ms = mergeWalk imp (resliceComments posStart posEnd cm) 0 0"
    and "spansOrdered ms" and "spansInFile f ms"
    and "squashBlankImportLines [f] posStart posEnd imp cm = Inr fset'"
  shows "squashBlankImportLines fset' posStart posEnd imp cm = Inr fset'"
proof -
  let ?f' = "f\<lparr>lines := squashedLines (base f) ms (lines f)\<rparr>"
  have run: "squashBlankImportLines [f] posStart posEnd imp cm = Inr [?f']"
    using assms(1,2,3,5) by (rule squashBlankImportLines_single)
  with assms(6) have fs: "fset' = [?f']" by simp
  have wf': "wfFile ?f'" using squashList_single [OF assms(1,5)] by simp
  have inf': "spansInFile ?f' ms" using assms(5) by (simp add: spansInFile_def inFile_def)
  from assms(1) have s: "sorted (lines f)" by (simp add: wfFile_def)
  have "squashBlankImportLines [?f'] posStart posEnd imp cm
          = Inr [?f'\<lparr>lines := squashedLines (base ?f') ms (lines ?f')\<rparr>]"
    using wf' assms(2,3) inf' by (rule squashBlankImportLines_single)
  then show ?thesis unfolding fs using squashedLines_idem [OF s assms(4), of "base f"] by simp
qed

lemma format_on_squashed_table:
  assumes "parseFile content = Inr ([f], file)" and "2 \<le> length (Imports file)"
    and "findImportBounds scanTokens (map_option (\<lambda>i. [f] ! i) (FileSet_File [f] 1))
           content (Imports file) = Some (Inr (impStart, impEnd))"
    and "wfFile f"
    and "ms = mergeWalk (Imports file) (resliceComments impStart impEnd (Comments file)) 0 0"
    and "spansInFile f ms" and "mergeCalls f ms = 0"
  shows "format parseFile scanTokens fprint content
           = (case fprint [f] file of Inl err \<Rightarrow> Some (Inl err) | Inr out \<Rightarrow> Some (Inr out))"
proof -
  have "squashBlankImportLines [f] impStart impEnd (Imports file) (Comments file)
          = Inr [f\<lparr>lines := squashedLines (base f) ms (lines f)\<rparr>]"
    using assms(4,2,5,6) by (rule squashBlankImportLines_single)
  moreover have "squashedLines (base f) ms (lines f) = lines f"
    using assms(7) mergeCalls_at [OF assms(4,6)] by (simp add: squashedLines_fixed)
  ultimately have "squashBlankImportLines [f] impStart impEnd (Imports file) (Comments file) = Inr [f]"
    by simp
  with assms(1,2,3) show ?thesis by (simp add: format_def)
qed

subsection \<open>Well-placed members give an ordered walk\<close>

lemma spansOrdered_Cons:
  "spansOrdered (h # rest) \<longleftrightarrow>
     Pos h \<le> End h \<and> (rest \<noteq> [] \<longrightarrow> End h \<le> Pos (hd rest)) \<and> spansOrdered rest"
  by (cases rest) auto

lemma spansOrdered_nth:
  "spansOrdered ms \<Longrightarrow> k < length ms \<Longrightarrow>
   Pos (ms ! k) \<le> End (ms ! k) \<and> (Suc k < length ms \<longrightarrow> End (ms ! k) \<le> Pos (ms ! Suc k))"
proof (induction ms arbitrary: k rule: spansOrdered.induct)
  case (3 a b ms)
  then show ?case by (cases k) auto
qed simp_all

lemma spansOrdered_drop: "spansOrdered ms \<Longrightarrow> spansOrdered (drop n ms)"
proof (induction n arbitrary: ms)
  case 0 then show ?case by simp
next
  case (Suc n)
  then show ?case by (cases ms) (auto dest: spansOrdered_tail)
qed

lemma spansOrdered_take: "spansOrdered ms \<Longrightarrow> spansOrdered (take n ms)"
proof (induction ms arbitrary: n)
  case Nil then show ?case by simp
next
  case (Cons a ms)
  show ?case
  proof (cases n)
    case 0 then show ?thesis by simp
  next
    case (Suc m)
    from Cons.prems have a: "Pos a \<le> End a" "ms \<noteq> [] \<longrightarrow> End a \<le> Pos (hd ms)" "spansOrdered ms"
      by (simp_all add: spansOrdered_Cons)
    have "take m ms \<noteq> [] \<longrightarrow> hd (take m ms) = hd ms" by (cases ms; cases m) auto
    moreover have "take m ms \<noteq> [] \<longrightarrow> ms \<noteq> []" by auto
    ultimately show ?thesis using a Cons.IH [OF a(3), of m] Suc
      by (simp add: spansOrdered_Cons)
  qed
qed

lemma spansOrdered_resliceComments:
  "spansOrdered (map CommentNode cm) \<Longrightarrow>
   spansOrdered (map CommentNode (resliceComments posStart posEnd cm))"
  by (auto simp: resliceComments_def slice_def take_map [symmetric] drop_map [symmetric]
           split: prod.splits intro!: spansOrdered_take spansOrdered_drop)

lemma mergeWalk_hd:
  assumes "impIdx < length imp \<or> cmIdx < length cm"
  shows "mergeWalk imp cm impIdx cmIdx \<noteq> []
       \<and> ((impIdx < length imp \<and> hd (mergeWalk imp cm impIdx cmIdx) = ImportNode (imp ! impIdx))
          \<or> (cmIdx < length cm \<and> hd (mergeWalk imp cm impIdx cmIdx) = CommentNode (cm ! cmIdx)))"
proof -
  obtain cur i j where c: "chooseNext imp cm impIdx cmIdx True = Inr (cur, i, j)"
    using chooseNext_ok [OF assms] by blast
  have "mergeWalk imp cm impIdx cmIdx = cur # mergeWalk imp cm i j"
    using assms c by (rule mergeWalk_step)
  moreover have "(impIdx < length imp \<and> cur = ImportNode (imp ! impIdx))
       \<or> (cmIdx < length cm \<and> cur = CommentNode (cm ! cmIdx))"
    using c by (auto simp: chooseNext_def split: if_splits)
  ultimately show ?thesis by auto
qed

lemma mergeWalk_ordered:
  assumes imp: "spansOrdered (map ImportNode imp)" and cm: "spansOrdered (map CommentNode cm)"
    and ne: "\<forall>s\<in>set imp. imp_Pos s < imp_End s"
    and apart: "\<forall>s\<in>set imp. \<forall>g\<in>set cm. imp_End s \<le> cm_Pos g \<or> cm_End g \<le> imp_Pos s"
  shows "impIdx \<le> length imp \<Longrightarrow> cmIdx \<le> length cm \<Longrightarrow>
         spansOrdered (mergeWalk imp cm impIdx cmIdx)"
  using imp cm ne apart
proof (induction imp cm impIdx cmIdx rule: mergeWalk.induct)
  case (1 imp cm impIdx cmIdx)
  note imp = "1.prems"(3) and cm = "1.prems"(4) and ne = "1.prems"(5) and apart = "1.prems"(6)
  have impN: "imp_Pos (imp ! k) \<le> imp_End (imp ! k)
              \<and> (Suc k < length imp \<longrightarrow> imp_End (imp ! k) \<le> imp_Pos (imp ! Suc k))"
    if "k < length imp" for k
    using spansOrdered_nth [OF imp, of k] that by simp
  have cmN: "cm_Pos (cm ! k) \<le> cm_End (cm ! k)
              \<and> (Suc k < length cm \<longrightarrow> cm_End (cm ! k) \<le> cm_Pos (cm ! Suc k))"
    if "k < length cm" for k
    using spansOrdered_nth [OF cm, of k] that by simp
  have cross: "imp_End (imp ! i) \<le> cm_Pos (cm ! j) \<or> cm_End (cm ! j) \<le> imp_Pos (imp ! i)"
    if "i < length imp" "j < length cm" for i j
    using apart that by simp
  have strict: "imp_Pos (imp ! i) < imp_End (imp ! i)" if "i < length imp" for i
    using ne that by simp
  show ?case
  proof (cases "impIdx < length imp \<or> cmIdx < length cm")
    case False
    then show ?thesis by (simp add: mergeWalk_done)
  next
    case True
    then obtain cur i j where c: "chooseNext imp cm impIdx cmIdx True = Inr (cur, i, j)"
      using chooseNext_ok by blast
    have bnd: "i \<le> length imp" "j \<le> length cm"
      using chooseNext_inc_bounds [OF c "1.prems"(1,2)] by simp_all
    have w: "mergeWalk imp cm impIdx cmIdx = cur # mergeWalk imp cm i j"
      using True c by (rule mergeWalk_step)
    have rest: "spansOrdered (mergeWalk imp cm i j)"
      using "1.IH" [OF True c refl refl bnd imp cm ne apart] .
    have self: "Pos cur \<le> End cur"
      using c impN cmN by (auto simp: chooseNext_def split: if_splits)
    have nxt: "End cur \<le> Pos (hd (mergeWalk imp cm i j))" if "mergeWalk imp cm i j \<noteq> []"
    proof -
      from that have more: "i < length imp \<or> j < length cm"
        using mergeWalk_done [of i imp j cm] by blast
      from mergeWalk_hd [OF more]
      have h: "(i < length imp \<and> hd (mergeWalk imp cm i j) = ImportNode (imp ! i))
             \<or> (j < length cm \<and> hd (mergeWalk imp cm i j) = CommentNode (cm ! j))" by simp
      have a: "End cur \<le> imp_Pos (imp ! i)" if "i < length imp"
        using c that impN [of impIdx] cmN [of cmIdx] cross [of i cmIdx] strict [of i]
        by (auto simp: chooseNext_def split: if_splits)
      have b: "End cur \<le> cm_Pos (cm ! j)" if "j < length cm"
        using c that impN [of impIdx] cmN [of cmIdx] cross [of impIdx j]
        by (auto simp: chooseNext_def split: if_splits)
      from h a b show ?thesis by auto
    qed
    show ?thesis unfolding w using self nxt rest by (simp add: spansOrdered_Cons)
  qed
qed

lemma membersWellPlaced_walk:
  assumes "membersWellPlaced f imp cm"
    and "ms = mergeWalk imp (resliceComments posStart posEnd cm) 0 0"
  shows "spansOrdered ms \<and> spansInFile f ms"
proof
  let ?cm = "resliceComments posStart posEnd cm"
  from assms(1) have imp: "spansOrdered (map ImportNode imp)"
    and cm: "spansOrdered (map CommentNode cm)"
    and ne: "\<forall>s\<in>set imp. imp_Pos s < imp_End s"
    and apart: "\<forall>s\<in>set imp. \<forall>g\<in>set cm. imp_End s \<le> cm_Pos g \<or> cm_End g \<le> imp_Pos s"
    and inI: "\<forall>s\<in>set imp. inFile f (imp_Pos s) \<and> inFile f (imp_End s)"
    and inC: "\<forall>g\<in>set cm. inFile f (cm_Pos g) \<and> inFile f (cm_End g)"
    by (auto simp: membersWellPlaced_def list_all_iff)
  have cm': "spansOrdered (map CommentNode ?cm)" using cm by (rule spansOrdered_resliceComments)
  have apart': "\<forall>s\<in>set imp. \<forall>g\<in>set ?cm. imp_End s \<le> cm_Pos g \<or> cm_End g \<le> imp_Pos s"
    using apart set_resliceComments [of posStart posEnd cm] by blast
  show "spansOrdered ms" unfolding assms(2)
    by (rule mergeWalk_ordered [OF imp cm' ne apart']) simp_all
  show "spansInFile f ms" unfolding assms(2) using inI inC by (rule walk_in_file)
qed

lemma spansOrdered_sorted_Pos:
  "spansOrdered (map CommentNode cm) \<Longrightarrow> sorted (map cm_Pos cm)"
proof (induction cm)
  case Nil then show ?case by simp
next
  case (Cons c cm)
  from Cons.prems have tl: "spansOrdered (map CommentNode cm)" by (simp add: spansOrdered_Cons)
  have "cm_Pos c \<le> cm_Pos g" if "g \<in> set cm" for g
  proof -
    from that have "CommentNode g \<in> set (map CommentNode cm)" by simp
    from spansOrdered_later [OF _ this, of "CommentNode c"] Cons.prems
    have "cm_End c \<le> cm_Pos g" by simp
    moreover from Cons.prems have "cm_Pos c \<le> cm_End c" by (simp add: spansOrdered_Cons)
    ultimately show ?thesis by simp
  qed
  with Cons.IH [OF tl] show ?case by simp
qed

subsection \<open>Every gap is closed in a file without line directives\<close>

lemma squash_gaps_closed_without_line_infos:
  assumes "wfFile f" and "2 \<le> length imp" and "membersWellPlaced f imp cm"
    and "ms = mergeWalk imp (resliceComments posStart posEnd cm) 0 0"
  shows "\<exists>f'. squashBlankImportLines [f] posStart posEnd imp cm = Inr [f']
           \<and> length (lines f') + mergeCalls f ms = length (lines f)
           \<and> (\<forall>k. Suc k < length ms \<longrightarrow> 1 < lineGap f (ms ! k) (ms ! Suc k)
                  \<longrightarrow> lineGap f' (ms ! k) (ms ! Suc k) = 1)"
proof -
  let ?f' = "f\<lparr>lines := squashedLines (base f) ms (lines f)\<rparr>"
  from membersWellPlaced_walk [OF assms(3,4)]
  have ord: "spansOrdered ms" and inf: "spansInFile f ms" by simp_all
  have run: "squashBlankImportLines [f] posStart posEnd imp cm = Inr [?f']"
    using assms(1,2,4) inf by (rule squashBlankImportLines_single)
  from assms(1) have s: "sorted (lines f)" by (simp add: wfFile_def)
  have cnt: "length (lines ?f') + mergeCalls f ms = length (lines f)"
    using squashedLines_length [OF s ord, of "base f"] mergeCalls_at [OF assms(1) inf] by simp
  have gaps: "lineGap ?f' (ms ! k) (ms ! Suc k) = 1"
    if "Suc k < length ms" "1 < lineGap f (ms ! k) (ms ! Suc k)" for k
    using squashed_lineGap [OF assms(1) ord inf that(1)] that(2) by simp
  from run cnt gaps show ?thesis by blast
qed

section \<open>The claims\<close>

text \<open>
  C1 fails on the code for a file with a \<open>//line\<close> directive. In
  \<open>exFileLineDirective\<close> the comment ends on line 5 of the table and the import
  \<open>"b"\<close> starts on line 7, with one blank line between them; one call of
  \<open>MergeLine 5\<close> puts the import on line 6. \<open>File.Line\<close> reports the import on
  line 101, as the directive says, so the loop asks for 95 calls of
  \<open>MergeLine 5\<close>: three calls delete the table entries 43, 44 and 49, the fourth
  finds no line after line 5 and panics.
\<close>

theorem squash_line_directive_panics:
  "searchInts (lines exFileLineDirective) (43 - base exFileLineDirective) + 1 = 5
   \<and> searchInts (lines exFileLineDirective) (46 - base exFileLineDirective) + 1 = 7
   \<and> MergeLine 5 exFileLineDirective
       = Inr (exFileLineDirective\<lparr>lines := [0, 10, 11, 20, 25, 44, 49]\<rparr>)
   \<and> searchInts [0, 10, 11, 20, 25, 44, 49] (46 - base exFileLineDirective) + 1 = 6
   \<and> Line exFileLineDirective 43 = 5 \<and> Line exFileLineDirective 46 = 101
   \<and> lineGap exFileLineDirective (CommentNode (CommentGroup 26 43)) (ImportNode (ImportSpec 46 49)) = 96
   \<and> mergeLoop 3 (Some 0) 5 [exFileLineDirective]
       = Inr [exFileLineDirective\<lparr>lines := [0, 10, 11, 20, 25]\<rparr>]
   \<and> mergeLoop 4 (Some 0) 5 [exFileLineDirective] = Inl PanicInvalidLine
   \<and> squashBlankImportLines [exFileLineDirective] 19 50 [ImportSpec 22 25, ImportSpec 46 49]
        [CommentGroup 26 43] = Inl PanicInvalidLine"
  by code_simp

text \<open>
  C2 as stated fails. In \<open>exFileOneBlank\<close> the two imports are one blank line
  apart (the second starts two lines below the end of the first). The squasher
  calls \<open>MergeLine\<close> once and the blank line is gone: the table loses the entry of
  offset 25 and the second import starts on the line after the first.
\<close>

theorem single_blank_line_counterexample:
  "lineGap exFileOneBlank (ImportNode (ImportSpec 22 25)) (ImportNode (ImportSpec 28 31)) = 2
   \<and> squashBlankImportLines [exFileOneBlank] 19 32 [ImportSpec 22 25, ImportSpec 28 31] []
       = Inr [exFileOneBlank\<lparr>lines := [0, 10, 11, 20, 26, 31]\<rparr>]
   \<and> lineGap (exFileOneBlank\<lparr>lines := [0, 10, 11, 20, 26, 31]\<rparr>)
        (ImportNode (ImportSpec 22 25)) (ImportNode (ImportSpec 28 31)) = 1"
  by code_simp

text \<open>
  C2, amended. In a file without \<open>//line\<close> directives, with imports and comment
  groups in position order, not overlapping and inside the file: a pair of
  consecutive members with exactly one blank line between them
  (\<open>nextStartLine - currEndLine = 2\<close>) ends with none, the next member starting on
  the line after the one on which the current member ends. Every pair's gap
  becomes the smaller of 1 and the gap it had, so a pair keeps its gap if and
  only if it had no blank line (\<open>nextStartLine - currEndLine \<le> 1\<close>). The number
  of entries that the table loses is \<open>mergeCalls\<close>, the sum over the pairs of
  \<open>nextStartLine - currEndLine - 1\<close> where that is positive, which is one for a
  pair with a single blank line; the file is unchanged if and only if that sum
  is 0. For a pair two lines apart, in any file, what the loop does for the pair
  is one call of \<open>MergeLine\<close> on the line of the current member's end.
\<close>

theorem squash_single_blank_line:
  assumes "wfFile f" and "2 \<le> length imp" and "membersWellPlaced f imp cm"
    and "ms = mergeWalk imp (resliceComments posStart posEnd cm) 0 0"
  shows "(\<exists>f'. squashBlankImportLines [f] posStart posEnd imp cm = Inr [f']
           \<and> length (lines f') + mergeCalls f ms = length (lines f)
           \<and> (\<forall>k. Suc k < length ms \<longrightarrow>
                 lineGap f' (ms ! k) (ms ! Suc k) = min 1 (lineGap f (ms ! k) (ms ! Suc k))
               \<and> (lineGap f (ms ! k) (ms ! Suc k) = 2 \<longrightarrow> lineGap f' (ms ! k) (ms ! Suc k) = 1)
               \<and> (lineGap f' (ms ! k) (ms ! Suc k) = lineGap f (ms ! k) (ms ! Suc k)
                    \<longleftrightarrow> lineGap f (ms ! k) (ms ! Suc k) \<le> 1))
           \<and> (f' = f \<longleftrightarrow> mergeCalls f ms = 0))
       \<and> (\<forall>g a b. 1 \<le> base g \<and> inFile g (End a) \<and> inFile g (Pos b) \<and> lineGap g a b = 2
             \<longrightarrow> squashPair [g] a b = ptr_MergeLine (Some 0) (Line g (End a)) [g])"
proof
  let ?f' = "f\<lparr>lines := squashedLines (base f) ms (lines f)\<rparr>"
  from membersWellPlaced_walk [OF assms(3,4)]
  have ord: "spansOrdered ms" and inf: "spansInFile f ms" by simp_all
  have run: "squashBlankImportLines [f] posStart posEnd imp cm = Inr [?f']"
    using assms(1,2,4) inf by (rule squashBlankImportLines_single)
  from assms(1) have s: "sorted (lines f)" by (simp add: wfFile_def)
  have cnt: "length (lines ?f') + mergeCalls f ms = length (lines f)"
    using squashedLines_length [OF s ord, of "base f"] mergeCalls_at [OF assms(1) inf] by simp
  have gaps: "lineGap ?f' (ms ! k) (ms ! Suc k) = min 1 (lineGap f (ms ! k) (ms ! Suc k))
      \<and> (lineGap f (ms ! k) (ms ! Suc k) = 2 \<longrightarrow> lineGap ?f' (ms ! k) (ms ! Suc k) = 1)
      \<and> (lineGap ?f' (ms ! k) (ms ! Suc k) = lineGap f (ms ! k) (ms ! Suc k)
            \<longleftrightarrow> lineGap f (ms ! k) (ms ! Suc k) \<le> 1)"
    if "Suc k < length ms" for k
    using squashed_lineGap [OF assms(1) ord inf that] by auto
  have fixed: "?f' = f \<longleftrightarrow> mergeCalls f ms = 0"
  proof
    assume "?f' = f"
    then have "length (lines ?f') = length (lines f)" by simp
    with cnt show "mergeCalls f ms = 0" by simp
  next
    assume "mergeCalls f ms = 0"
    then show "?f' = f"
      using mergeCalls_at [OF assms(1) inf] squashedLines_fixed [of "base f" "lines f" ms] by simp
  qed
  show "\<exists>f'. squashBlankImportLines [f] posStart posEnd imp cm = Inr [f']
           \<and> length (lines f') + mergeCalls f ms = length (lines f)
           \<and> (\<forall>k. Suc k < length ms \<longrightarrow>
                 lineGap f' (ms ! k) (ms ! Suc k) = min 1 (lineGap f (ms ! k) (ms ! Suc k))
               \<and> (lineGap f (ms ! k) (ms ! Suc k) = 2 \<longrightarrow> lineGap f' (ms ! k) (ms ! Suc k) = 1)
               \<and> (lineGap f' (ms ! k) (ms ! Suc k) = lineGap f (ms ! k) (ms ! Suc k)
                    \<longleftrightarrow> lineGap f (ms ! k) (ms ! Suc k) \<le> 1))
           \<and> (f' = f \<longleftrightarrow> mergeCalls f ms = 0)"
    by (rule exI [of _ ?f']) (use run cnt gaps fixed in blast)
  show "\<forall>g a b. 1 \<le> base g \<and> inFile g (End a) \<and> inFile g (Pos b) \<and> lineGap g a b = 2
             \<longrightarrow> squashPair [g] a b = ptr_MergeLine (Some 0) (Line g (End a)) [g]"
    using squashPair_one_blank_line by blast
qed

theorem squash_single_blank_line_witness:
  "wfFile exFileOneBlank
   \<and> membersWellPlaced exFileOneBlank [ImportSpec 22 25, ImportSpec 28 31] []
   \<and> lineGap exFileOneBlank (ImportNode (ImportSpec 22 25)) (ImportNode (ImportSpec 28 31)) = 2
   \<and> (\<exists>f'. squashBlankImportLines [exFileOneBlank] 19 32 [ImportSpec 22 25, ImportSpec 28 31] [] = Inr [f']
          \<and> length (lines f') + 1 = length (lines exFileOneBlank)
          \<and> lineGap f' (ImportNode (ImportSpec 22 25)) (ImportNode (ImportSpec 28 31)) = 1)
   \<and> squashPair [exFileOneBlank] (ImportNode (ImportSpec 22 25)) (ImportNode (ImportSpec 28 31))
       = ptr_MergeLine (Some 0) 4 [exFileOneBlank]"
proof -
  let ?a = "ImportNode (ImportSpec 22 25)" and ?b = "ImportNode (ImportSpec 28 31)"
  let ?ms = "[?a, ?b]"
  have wf: "wfFile exFileOneBlank" by code_simp
  have len: "2 \<le> length [ImportSpec 22 25, ImportSpec 28 31]" by simp
  have placed: "membersWellPlaced exFileOneBlank [ImportSpec 22 25, ImportSpec 28 31] []"
    by code_simp
  have walk: "?ms = mergeWalk [ImportSpec 22 25, ImportSpec 28 31] (resliceComments 19 32 []) 0 0"
    by code_simp
  have gap: "lineGap exFileOneBlank ?a ?b = 2" by code_simp
  have calls: "mergeCalls exFileOneBlank ?ms = 1" by code_simp
  have line: "Line exFileOneBlank (End ?a) = 4" by code_simp
  have pos: "1 \<le> base exFileOneBlank \<and> inFile exFileOneBlank (End ?a) \<and> inFile exFileOneBlank (Pos ?b)"
    by code_simp
  note main = squash_single_blank_line [OF wf len placed walk]
  from main obtain f' where f': "squashBlankImportLines [exFileOneBlank] 19 32 [ImportSpec 22 25, ImportSpec 28 31] [] = Inr [f']"
      "length (lines f') + mergeCalls exFileOneBlank ?ms = length (lines exFileOneBlank)"
      "\<forall>k. Suc k < length ?ms \<longrightarrow>
         lineGap f' (?ms ! k) (?ms ! Suc k) = min 1 (lineGap exFileOneBlank (?ms ! k) (?ms ! Suc k))
       \<and> (lineGap exFileOneBlank (?ms ! k) (?ms ! Suc k) = 2 \<longrightarrow> lineGap f' (?ms ! k) (?ms ! Suc k) = 1)
       \<and> (lineGap f' (?ms ! k) (?ms ! Suc k) = lineGap exFileOneBlank (?ms ! k) (?ms ! Suc k)
            \<longleftrightarrow> lineGap exFileOneBlank (?ms ! k) (?ms ! Suc k) \<le> 1)"
    by blast
  from f'(3) gap have g1: "lineGap f' ?a ?b = 1" by (auto dest: spec [of _ 0])
  from main pos gap have "squashPair [exFileOneBlank] ?a ?b
      = ptr_MergeLine (Some 0) (Line exFileOneBlank (End ?a)) [exFileOneBlank]" by blast
  with line have one: "squashPair [exFileOneBlank] ?a ?b = ptr_MergeLine (Some 0) 4 [exFileOneBlank]"
    by simp
  from wf placed gap f'(1,2) calls g1 one show ?thesis by auto
qed

text \<open>
  C4 as stated fails on the table. \<open>format\<close> hands every import of the file to
  the squasher, not only those between the parentheses. In \<open>exFileTwoDecls\<close> the
  second import is a declaration of its own after the closing parenthesis at 26;
  the pair of the two imports makes the squasher delete the table entries 25 and
  27, the line of the closing parenthesis and the blank line after it, both at
  or beyond the end of the bounds.
\<close>

theorem squash_outside_bounds_counterexample:
  "lines exFileTwoDecls = [0, 10, 11, 20, 25, 27, 28]
   \<and> squashBlankImportLines [exFileTwoDecls] 19 26 [ImportSpec 22 25, ImportSpec 36 39] []
       = Inr [exFileTwoDecls\<lparr>lines := [0, 10, 11, 20, 28]\<rparr>]
   \<and> 26 - base exFileTwoDecls \<le> 25 \<and> 26 - base exFileTwoDecls \<le> 27"
  by code_simp

text \<open>
  C4, amended. In a file without \<open>//line\<close> directives in which every import
  starts strictly inside the bounds (the file has the one parenthesised import
  declaration), with imports and comment groups in position order, not
  overlapping and inside the file, the squasher affects line starts strictly
  inside the bounds and nothing else: the file it leaves is the file it was given
  with some entries of the line table deleted, every deleted entry lies strictly
  between \<open>posStart\<close> and \<open>posEnd\<close>, and so the entries at or before \<open>posStart\<close>
  and at or after \<open>posEnd\<close> are the same before and after. What the printer
  makes of the tree and the table is outside the model.
\<close>

theorem squash_deletes_only_lines_inside_bounds:
  assumes "wfFile f" and "2 \<le> length imp" and "membersWellPlaced f imp cm"
    and "\<forall>s\<in>set imp. posStart < imp_Pos s \<and> imp_Pos s < posEnd"
  shows "\<exists>f' D. squashBlankImportLines [f] posStart posEnd imp cm = Inr [f']
           \<and> f' = f\<lparr>lines := filter (\<lambda>e. e \<notin> D) (lines f)\<rparr>
           \<and> (\<forall>e\<in>D. posStart - base f < e \<and> e < posEnd - base f)
           \<and> filter (\<lambda>e. e \<le> posStart - base f \<or> posEnd - base f \<le> e) (lines f')
               = filter (\<lambda>e. e \<le> posStart - base f \<or> posEnd - base f \<le> e) (lines f)"
proof -
  define ms where "ms = mergeWalk imp (resliceComments posStart posEnd cm) 0 0"
  from membersWellPlaced_walk [OF assms(3) ms_def]
  have ord: "spansOrdered ms" and inf: "spansInFile f ms" by simp_all
  have run: "squashBlankImportLines [f] posStart posEnd imp cm
               = Inr [f\<lparr>lines := squashedLines (base f) ms (lines f)\<rparr>]"
    using assms(1,2) ms_def inf by (rule squashBlankImportLines_single)
  from assms(1) have s: "sorted (lines f)" and d: "distinct (lines f)"
    by (simp_all add: wfFile_def)
  from assms(3) have cm: "sorted (map cm_Pos cm)"
    by (simp add: membersWellPlaced_def spansOrdered_sorted_Pos)
  have inb: "posStart < Pos m \<and> Pos m < posEnd \<and> Pos m \<le> End m" if "m \<in> set ms" for m
    using walk_in_bounds [OF assms(4) cm] spansOrdered_Pos_le_End [OF ord] that ms_def
    by blast
  from squashedLines_deleted [OF s d ord, of "base f"]
  obtain D where D: "squashedLines (base f) ms (lines f) = filter (\<lambda>e. e \<notin> D) (lines f)"
      "\<forall>e\<in>D. \<exists>m\<in>set ms. \<exists>m'\<in>set ms. End m - base f < e \<and> e \<le> Pos m' - base f"
    by blast
  have inside: "\<forall>e\<in>D. posStart - base f < e \<and> e < posEnd - base f"
  proof
    fix e assume "e \<in> D"
    with D(2) obtain m m' where "m \<in> set ms" "m' \<in> set ms"
      "End m - base f < e \<and> e \<le> Pos m' - base f" by blast
    with inb [of m] inb [of m'] show "posStart - base f < e \<and> e < posEnd - base f" by linarith
  qed
  have "filter (\<lambda>e. e \<le> posStart - base f \<or> posEnd - base f \<le> e) (filter (\<lambda>e. e \<notin> D) (lines f))
        = filter (\<lambda>e. e \<le> posStart - base f \<or> posEnd - base f \<le> e) (lines f)"
    unfolding filter_filter using inside by (intro filter_cong) auto
  with run D(1) inside show ?thesis by auto
qed

theorem squash_deletes_only_lines_inside_bounds_witness:
  "wfFile exFileComment
   \<and> membersWellPlaced exFileComment [ImportSpec 22 25, ImportSpec 36 39] [CommentGroup 29 33]
   \<and> 19 < imp_Pos (ImportSpec 22 25) \<and> imp_Pos (ImportSpec 22 25) < 40
   \<and> 19 < imp_Pos (ImportSpec 36 39) \<and> imp_Pos (ImportSpec 36 39) < 40
   \<and> squashBlankImportLines [exFileComment] 19 40 [ImportSpec 22 25, ImportSpec 36 39]
        [CommentGroup 29 33] = Inr [exFileComment\<lparr>lines := [0, 10, 11, 20, 27, 34, 39]\<rparr>]
   \<and> (\<exists>f'. squashBlankImportLines [exFileComment] 19 40 [ImportSpec 22 25, ImportSpec 36 39]
              [CommentGroup 29 33] = Inr [f']
          \<and> base f' = base exFileComment \<and> fsize f' = fsize exFileComment
          \<and> infos f' = infos exFileComment
          \<and> filter (\<lambda>e. e \<le> 18 \<or> 39 \<le> e) (lines f') = [0, 10, 11, 39])"
proof -
  have wf: "wfFile exFileComment" by code_simp
  have len: "2 \<le> length [ImportSpec 22 25, ImportSpec 36 39]" by simp
  have placed: "membersWellPlaced exFileComment [ImportSpec 22 25, ImportSpec 36 39] [CommentGroup 29 33]"
    by code_simp
  have imp: "\<forall>s\<in>set [ImportSpec 22 25, ImportSpec 36 39]. 19 < imp_Pos s \<and> imp_Pos s < 40" by simp
  have outside: "filter (\<lambda>e. e \<le> 19 - base exFileComment \<or> 40 - base exFileComment \<le> e) (lines exFileComment)
                   = [0, 10, 11, 39]" by code_simp
  have b: "base exFileComment = 1" by code_simp
  have run: "squashBlankImportLines [exFileComment] 19 40 [ImportSpec 22 25, ImportSpec 36 39]
        [CommentGroup 29 33] = Inr [exFileComment\<lparr>lines := [0, 10, 11, 20, 27, 34, 39]\<rparr>]"
    by code_simp
  from squash_deletes_only_lines_inside_bounds [OF wf len placed imp] outside
  obtain f' D where f': "squashBlankImportLines [exFileComment] 19 40 [ImportSpec 22 25, ImportSpec 36 39]
        [CommentGroup 29 33] = Inr [f']"
      "f' = exFileComment\<lparr>lines := filter (\<lambda>e. e \<notin> D) (lines exFileComment)\<rparr>"
      "filter (\<lambda>e. e \<le> 19 - base exFileComment \<or> 40 - base exFileComment \<le> e) (lines f') = [0, 10, 11, 39]"
    by auto
  from f'(2) have same: "base f' = base exFileComment \<and> fsize f' = fsize exFileComment
      \<and> infos f' = infos exFileComment" by simp
  from f'(1,3) same b have "\<exists>f'. squashBlankImportLines [exFileComment] 19 40 [ImportSpec 22 25, ImportSpec 36 39]
              [CommentGroup 29 33] = Inr [f']
          \<and> base f' = base exFileComment \<and> fsize f' = fsize exFileComment
          \<and> infos f' = infos exFileComment
          \<and> filter (\<lambda>e. e \<le> 18 \<or> 39 \<le> e) (lines f') = [0, 10, 11, 39]"
    by auto
  with wf placed run show ?thesis by simp
qed

text \<open>
  C5 as stated fails. On the stream of \<^verbatim>\<open>package p;import (\<close>, which ends
  after the keyword and an open parenthesis, \<open>findImportBounds\<close> returns no
  failure: it does not return at all.
\<close>

theorem findImportBounds_eof_counterexample:
  "findImportBounds exScan (Some exFile18) ''package p;import ('' [] = None"
  by (simp add: findImportBounds_def exScan_def exFile18_def loop_Cons loop_exhausted NoPos_def)

text \<open>
  C5, amended. \<open>findImportBounds\<close> has no malformed-block failure and no check
  for the end of the stream. On a stream of tokens none of which is at \<open>NoPos\<close>
  (the scanner's positions are at least the base of the file) it fails to
  return exactly when the scan runs into the end of the stream: when the tokens
  after the first \<open>import\<close> keyword hold no close parenthesis and no string literal
  before the first open parenthesis, whether or not an open parenthesis is among
  them, and also when there is no \<open>import\<close> keyword at all. When it returns, it
  returns the non-block-import failure or bounds whose end is the position of a
  close parenthesis of the stream.
\<close>

theorem findImportBounds_no_malformed_block:
  assumes "fsize f = int (length content)"
    and "list_all (\<lambda>(p, t). p \<noteq> NoPos) (scanTokens content)"
  shows "(findImportBounds scanTokens (Some f) content imp = None
            \<longleftrightarrow> endsUnclosed (afterImport (scanTokens content)))
       \<and> (\<forall>r. findImportBounds scanTokens (Some f) content imp = Some r \<longrightarrow>
            r = Inl ErrNonBlockImport
            \<or> (\<exists>a b. r = Inr (a, b) \<and> (b, RPAREN) \<in> set (scanTokens content)))"
proof -
  have eq: "findImportBounds scanTokens (Some f) content imp
            = findImportBounds_loop (base f + fsize f) (scanTokens content) False NoPos NoPos"
    using assms(1) by (simp add: findImportBounds_def)
  show ?thesis unfolding eq
  proof (intro conjI allI impI)
    show "findImportBounds_loop (base f + fsize f) (scanTokens content) False NoPos NoPos = None
            \<longleftrightarrow> endsUnclosed (afterImport (scanTokens content))"
      using assms(2) by (rule loop_None)
  next
    fix r
    assume "findImportBounds_loop (base f + fsize f) (scanTokens content) False NoPos NoPos = Some r"
    then show "r = Inl ErrNonBlockImport
               \<or> (\<exists>a b. r = Inr (a, b) \<and> (b, RPAREN) \<in> set (scanTokens content))"
      by (rule loop_results)
  qed
qed

theorem findImportBounds_no_malformed_block_witness:
  "fsize exFile18 = int (length ''package p;import ('')
   \<and> list_all (\<lambda>(p, t). p \<noteq> NoPos) (exScan ''package p;import ('')
   \<and> endsUnclosed (afterImport (exScan ''package p;import (''))
   \<and> findImportBounds exScan (Some exFile18) ''package p;import ('' [] = None
   \<and> fsize exFile21 = int (length ''package p;import (`a`'')
   \<and> endsUnclosed (afterImport (exScan ''package p;import (`a`''))
   \<and> findImportBounds exScan (Some exFile21) ''package p;import (`a`'' [] = None
   \<and> fsize exFile18 = int (length ''package p;import()'')
   \<and> \<not> endsUnclosed (afterImport (exScan ''package p;import()''))
   \<and> findImportBounds exScan (Some exFile18) ''package p;import()'' [] = Some (Inr (17, 18))"
proof -
  have h1: "fsize exFile18 = int (length ''package p;import ('')" by (simp add: exFile18_def)
  have p1: "list_all (\<lambda>(p, t). p \<noteq> NoPos) (exScan ''package p;import ('')"
    by (simp add: exScan_def NoPos_def)
  have e1: "endsUnclosed (afterImport (exScan ''package p;import (''))"
    by (simp add: exScan_def afterImport_def endsUnclosed_def)
  from findImportBounds_no_malformed_block [of exFile18 "''package p;import (''" exScan "[]", OF h1 p1] e1
  have n1: "findImportBounds exScan (Some exFile18) ''package p;import ('' [] = None" by blast
  have h2: "fsize exFile21 = int (length ''package p;import (`a`'')" by (simp add: exFile21_def)
  have p2: "list_all (\<lambda>(p, t). p \<noteq> NoPos) (exScan ''package p;import (`a`'')"
    by (simp add: exScan_def NoPos_def)
  have e2: "endsUnclosed (afterImport (exScan ''package p;import (`a`''))"
    by (simp add: exScan_def afterImport_def endsUnclosed_def)
  from findImportBounds_no_malformed_block [of exFile21 "''package p;import (`a`''" exScan "[]", OF h2 p2] e2
  have n2: "findImportBounds exScan (Some exFile21) ''package p;import (`a`'' [] = None" by blast
  have h3: "fsize exFile18 = int (length ''package p;import()'')" by (simp add: exFile18_def)
  have p3: "list_all (\<lambda>(p, t). p \<noteq> NoPos) (exScan ''package p;import()'')"
    by (simp add: exScan_def NoPos_def)
  have r3: "findImportBounds exScan (Some exFile18) ''package p;import()'' [] = Some (Inr (17, 18))"
    by (simp add: findImportBounds_def exScan_def exFile18_def loop_Cons NoPos_def)
  from findImportBounds_no_malformed_block [of exFile18 "''package p;import()''" exScan "[]", OF h3 p3] r3
  have e3: "\<not> endsUnclosed (afterImport (exScan ''package p;import()''))" by simp
  from h1 p1 e1 n1 h2 e2 n2 h3 e3 r3 show ?thesis by simp
qed

text \<open>
  C6. On comment groups in ascending position order \<open>resliceComments\<close> returns
  exactly the groups whose position is strictly between \<open>posStart\<close> and \<open>posEnd\<close>,
  in their order, none when no group qualifies; the result is one contiguous
  slice of the input.
\<close>

theorem resliceComments_is_filter:
  assumes "sorted (map cm_Pos cm)"
  shows "resliceComments posStart posEnd cm = filter (inBlock posStart posEnd) cm
         \<and> (\<exists>lo hi. resliceComments posStart posEnd cm = slice cm lo hi)"
proof
  show "resliceComments posStart posEnd cm = filter (inBlock posStart posEnd) cm"
    using assms by (rule resliceComments_filter)
  obtain lo hi where r: "resliceScan posStart posEnd cm 0 (-1, -1) = (lo, hi)"
    by (cases "resliceScan posStart posEnd cm 0 (-1, -1)")
  show "\<exists>lo hi. resliceComments posStart posEnd cm = slice cm lo hi"
  proof (cases "lo = -1")
    case True
    with r have "resliceComments posStart posEnd cm = slice cm 0 0"
      by (simp add: resliceComments_def slice_def)
    then show ?thesis by blast
  next
    case False
    with r have "resliceComments posStart posEnd cm = slice cm lo (hi + 1)"
      by (simp add: resliceComments_def)
    then show ?thesis by blast
  qed
qed

theorem resliceComments_is_filter_witness:
  "sorted (map cm_Pos [CommentGroup 5 8, CommentGroup 19 20, CommentGroup 29 33, CommentGroup 34 35,
                       CommentGroup 40 41, CommentGroup 50 60])
   \<and> resliceComments 19 40 [CommentGroup 5 8, CommentGroup 19 20, CommentGroup 29 33, CommentGroup 34 35,
                       CommentGroup 40 41, CommentGroup 50 60]
       = [CommentGroup 29 33, CommentGroup 34 35]"
proof -
  let ?cm = "[CommentGroup 5 8, CommentGroup 19 20, CommentGroup 29 33, CommentGroup 34 35,
              CommentGroup 40 41, CommentGroup 50 60]"
  have s: "sorted (map cm_Pos ?cm)" by simp
  have "filter (inBlock 19 40) ?cm = [CommentGroup 29 33, CommentGroup 34 35]"
    by (simp add: inBlock_def)
  with resliceComments_is_filter [OF s, of 19 40] s show ?thesis by simp
qed

text \<open>
  C7 as stated fails. The one-line file has a parenthesised import declaration
  with one entry and a second import declaration after it. \<open>format\<close> counts the
  two imports of the file, finds the bounds of the one-entry block and returns
  what the printer prints, not the not-applicable failure.
\<close>

theorem format_one_entry_block_counterexample:
  "findImportBounds exScan (Some exFileOneLine) ''package p;import(`a`);import `b`''
     [ImportSpec 18 21, ImportSpec 30 33] = Some (Inr (17, 21))
   \<and> 17 < imp_Pos (ImportSpec 18 21) \<and> imp_Pos (ImportSpec 18 21) < 21
   \<and> 21 < imp_Pos (ImportSpec 30 33)
   \<and> format exParseTwoDecls exScan exPrint ''package p;import(`a`);import `b`'' = Some (Inr [])"
proof -
  have b: "findImportBounds exScan (Some exFileOneLine) ''package p;import(`a`);import `b`''
     [ImportSpec 18 21, ImportSpec 30 33] = Some (Inr (17, 21))"
    by (simp add: findImportBounds_def exScan_def exFileOneLine_def loop_Cons NoPos_def)
  have f: "FileSet_File [exFileOneLine] 1 = Some 0" by code_simp
  have q: "squashBlankImportLines [exFileOneLine] 17 21 [ImportSpec 18 21, ImportSpec 30 33] []
             = Inr [exFileOneLine]" by code_simp
  have "format exParseTwoDecls exScan exPrint ''package p;import(`a`);import `b`'' = Some (Inr [])"
    using b f q by (simp add: format_def exParseTwoDecls_def exPrint_def)
  with b show ?thesis by simp
qed

text \<open>
  C7, amended. The count that \<open>format\<close> tests is the number of imports of the
  whole file, \<open>len(file.Imports)\<close>, not the number of entries of the parenthesised
  declaration. When the parser accepts the content and the file has fewer than
  two imports in all, \<open>format\<close> returns the error "doesn't contain multiple
  imports" and no bytes, for every scanner and every printer. The witness is a
  file with no import, on whose token stream \<open>findImportBounds\<close> would not
  return: \<open>format\<close> returns the error there without running it.
\<close>

theorem format_not_applicable:
  assumes "parseFile content = Inr (fset, file)" and "length (Imports file) < 2"
  shows "format parseFile scanTokens fprint content = Some (Inl ErrNotMultipleImports)"
  using assms by (simp add: format_def)

theorem format_not_applicable_witness:
  "exParse ''package p'' = Inr ([exFile9], \<lparr>Decls = (), Imports = [], Comments = []\<rparr>)
   \<and> length (Imports \<lparr>Decls = (), Imports = [], Comments = []\<rparr>) < 2
   \<and> format exParse exScan exPrint ''package p'' = Some (Inl ErrNotMultipleImports)
   \<and> findImportBounds exScan (Some exFile9) ''package p'' [] = None"
proof -
  have p: "exParse ''package p'' = Inr ([exFile9], \<lparr>Decls = (), Imports = [], Comments = []\<rparr>)"
    by (simp add: exParse_def)
  have n: "length (Imports \<lparr>Decls = (), Imports = [], Comments = []\<rparr>) < 2" by simp
  have d: "findImportBounds exScan (Some exFile9) ''package p'' [] = None"
    by (simp add: findImportBounds_def exScan_def exFile9_def loop_Cons loop_exhausted NoPos_def)
  from format_not_applicable [of exParse "''package p''" "[exFile9]"
      "\<lparr>Decls = (), Imports = [], Comments = []\<rparr>" exScan exPrint, OF p n]
  have "format exParse exScan exPrint ''package p'' = Some (Inl ErrNotMultipleImports)" .
  with p n d show ?thesis by simp
qed

text \<open>
  C8 as stated fails. On a table of three lines \<open>MergeLine 1\<close> leaves two lines,
  and a second \<open>MergeLine 1\<close> leaves one: the second call has a further effect.
\<close>

theorem MergeLine_twice_counterexample:
  "MergeLine 1 \<lparr>base = 1, fsize = 12, lines = [0, 5, 9], infos = []\<rparr> = Inr \<lparr>base = 1, fsize = 12, lines = [0, 9], infos = []\<rparr>
   \<and> MergeLine 1 \<lparr>base = 1, fsize = 12, lines = [0, 9], infos = []\<rparr> = Inr \<lparr>base = 1, fsize = 12, lines = [0], infos = []\<rparr>"
  by (simp add: MergeLine_def)

text \<open>
  C8, amended. \<open>MergeLine n\<close> is not idempotent. A call succeeds only for
  \<open>1 \<le> n\<close> below the number of lines, and then it deletes the table entry of
  line \<open>n + 1\<close>, the one at index \<open>n\<close>, and changes nothing else. A second
  \<open>MergeLine n\<close> never leaves the table as the first one left it: when the file
  had a line \<open>n + 2\<close> it deletes the entry of that line as well, and otherwise it
  panics.
\<close>

theorem MergeLine_deletes_next_line_entry:
  assumes "MergeLine n f = Inr f'"
  shows "1 \<le> n \<and> n < int (length (lines f))
       \<and> f' = f\<lparr>lines := take (nat n) (lines f) @ drop (nat n + 1) (lines f)\<rparr>
       \<and> MergeLine n f' \<noteq> Inr f'
       \<and> MergeLine n f'
           = (if n + 1 < int (length (lines f))
              then Inr (f\<lparr>lines := take (nat n) (lines f) @ drop (nat n + 2) (lines f)\<rparr>)
              else Inl PanicInvalidLine)"
proof -
  from assms have n: "1 \<le> n" "n < int (length (lines f))"
    and f': "f' = f\<lparr>lines := take (nat n) (lines f) @ drop (nat n + 1) (lines f)\<rparr>"
    by (auto simp: MergeLine_def split: if_splits)
  from n have len: "length (lines f') = length (lines f) - 1" unfolding f' by simp
  have second: "MergeLine n f'
           = (if n + 1 < int (length (lines f))
              then Inr (f\<lparr>lines := take (nat n) (lines f) @ drop (nat n + 2) (lines f)\<rparr>)
              else Inl PanicInvalidLine)"
  proof (cases "n + 1 < int (length (lines f))")
    case True
    with n have "take (nat n) (lines f') = take (nat n) (lines f)"
      and "drop (nat n + 1) (lines f') = drop (nat n + 2) (lines f)"
      unfolding f' by (simp_all add: min_absorb2)
    with True n len show ?thesis unfolding f' by (simp add: MergeLine_def)
  next
    case False
    with n len show ?thesis by (simp add: MergeLine_def)
  qed
  have "MergeLine n f' \<noteq> Inr f'"
  proof
    assume "MergeLine n f' = Inr f'"
    then have lt: "n < int (length (lines f'))"
      and eq: "f' = f'\<lparr>lines := take (nat n) (lines f') @ drop (nat n + 1) (lines f')\<rparr>"
      by (auto simp: MergeLine_def split: if_splits)
    from eq have "lines f' = take (nat n) (lines f') @ drop (nat n + 1) (lines f')"
      by (metis File.select_convs(3) File.surjective File.update_convs(3))
    then have "length (lines f') = length (take (nat n) (lines f') @ drop (nat n + 1) (lines f'))"
      by simp
    then show False using n lt by simp
  qed
  with n f' second show ?thesis by simp
qed

theorem MergeLine_deletes_next_line_entry_witness:
  "MergeLine 1 \<lparr>base = 1, fsize = 12, lines = [0, 5, 9], infos = []\<rparr>
     = Inr \<lparr>base = 1, fsize = 12, lines = [0, 9], infos = []\<rparr>
   \<and> MergeLine 1 \<lparr>base = 1, fsize = 12, lines = [0, 9], infos = []\<rparr>
     = Inr \<lparr>base = 1, fsize = 12, lines = [0], infos = []\<rparr>
   \<and> MergeLine 1 \<lparr>base = 1, fsize = 12, lines = [0, 9], infos = []\<rparr>
     \<noteq> Inr \<lparr>base = 1, fsize = 12, lines = [0, 9], infos = []\<rparr>"
proof -
  have h: "MergeLine 1 \<lparr>base = 1, fsize = 12, lines = [0, 5, 9], infos = []\<rparr>
             = Inr \<lparr>base = 1, fsize = 12, lines = [0, 9], infos = []\<rparr>"
    by (simp add: MergeLine_def)
  from MergeLine_deletes_next_line_entry [OF h]
  have "MergeLine 1 \<lparr>base = 1, fsize = 12, lines = [0, 9], infos = []\<rparr>
          \<noteq> Inr \<lparr>base = 1, fsize = 12, lines = [0, 9], infos = []\<rparr>"
    and "MergeLine 1 \<lparr>base = 1, fsize = 12, lines = [0, 9], infos = []\<rparr>
          = Inr \<lparr>base = 1, fsize = 12, lines = [0], infos = []\<rparr>"
    by simp_all
  with h show ?thesis by simp
qed

text \<open>
  C9 as stated fails. With an import and a comment group both at position 5,
  \<open>chooseNext\<close> selects the comment group.
\<close>

theorem chooseNext_tie_counterexample:
  "chooseNext [ImportSpec 5 8] [CommentGroup 5 9] 0 0 True = Inr (CommentNode (CommentGroup 5 9), 0, 1)"
  by (simp add: chooseNext_def)

text \<open>
  C9, amended. When neither index is at the end and the two heads have equal
  positions, \<open>chooseNext\<close> selects the comment group and, with \<open>inc\<close> set, advances
  the comment index: the import is selected only when its position is strictly
  smaller.
\<close>

theorem chooseNext_tie_selects_comment:
  assumes "impIdx < length imp" and "cmIdx < length cm"
  shows "(imp_Pos (imp ! impIdx) = cm_Pos (cm ! cmIdx) \<longrightarrow>
            chooseNext imp cm impIdx cmIdx inc
              = Inr (CommentNode (cm ! cmIdx), impIdx, if inc then cmIdx + 1 else cmIdx))
       \<and> ((\<exists>i j. chooseNext imp cm impIdx cmIdx inc = Inr (ImportNode (imp ! impIdx), i, j))
            \<longleftrightarrow> imp_Pos (imp ! impIdx) < cm_Pos (cm ! cmIdx))"
  using assms by (simp add: chooseNext_def)

theorem chooseNext_tie_selects_comment_witness:
  "(0::nat) < length [ImportSpec 5 8] \<and> (0::nat) < length [CommentGroup 5 9]
   \<and> imp_Pos ([ImportSpec 5 8] ! 0) = cm_Pos ([CommentGroup 5 9] ! 0)
   \<and> chooseNext [ImportSpec 5 8] [CommentGroup 5 9] 0 0 False = Inr (CommentNode (CommentGroup 5 9), 0, 0)"
proof -
  have i: "(0::nat) < length [ImportSpec 5 8]" and c: "(0::nat) < length [CommentGroup 5 9]"
    by simp_all
  have tie: "imp_Pos ([ImportSpec 5 8] ! 0) = cm_Pos ([CommentGroup 5 9] ! 0)" by simp
  from chooseNext_tie_selects_comment [OF i c, of False]
  have "imp_Pos ([ImportSpec 5 8] ! 0) = cm_Pos ([CommentGroup 5 9] ! 0) \<longrightarrow>
          chooseNext [ImportSpec 5 8] [CommentGroup 5 9] 0 0 False
            = Inr (CommentNode ([CommentGroup 5 9] ! 0), 0, if False then 0 + 1 else 0)"
    by (rule conjunct1)
  with tie have "chooseNext [ImportSpec 5 8] [CommentGroup 5 9] 0 0 False
            = Inr (CommentNode ([CommentGroup 5 9] ! 0), 0, if False then 0 + 1 else 0)"
    by (rule rev_mp)
  with i c tie show ?thesis by simp
qed

text \<open>
  C10. When the file set holds one file (its base at least 1, as every file of a
  set has) and the positions of all imports and comment groups lie in it,
  \<open>squashBlankImportLines\<close> never panics with "files unequal": for any two members
  of the walk the end of one and the start of the other resolve to that file, in
  the table it has at any moment of the walk (\<open>MergeLine\<close> changes neither base nor
  size).
\<close>

theorem squash_files_never_unequal:
  assumes "1 \<le> base f"
    and "\<forall>s\<in>set imp. inFile f (imp_Pos s) \<and> inFile f (imp_End s)"
    and "\<forall>g\<in>set cm. inFile f (cm_Pos g) \<and> inFile f (cm_End g)"
  shows "squashBlankImportLines [f] posStart posEnd imp cm \<noteq> Inl PanicFilesUnequal
       \<and> (\<forall>a\<in>set (mergeWalk imp (resliceComments posStart posEnd cm) 0 0).
          \<forall>b\<in>set (mergeWalk imp (resliceComments posStart posEnd cm) 0 0).
          \<forall>g. base g = base f \<and> fsize g = fsize f \<longrightarrow>
            FileSet_File [g] (End a) = Some 0 \<and> FileSet_File [g] (Pos b) = Some 0)"
proof
  let ?ms = "mergeWalk imp (resliceComments posStart posEnd cm) 0 0"
  have inf: "spansInFile f ?ms" using assms(2,3) by (rule walk_in_file)
  have "squashList ?ms [f] \<noteq> Inl PanicFilesUnequal"
    using squashList_range [OF assms(1) inf] by auto
  then show "squashBlankImportLines [f] posStart posEnd imp cm \<noteq> Inl PanicFilesUnequal"
    by (simp add: squashBlankImportLines_def squashLoop_walk)
  show "\<forall>a\<in>set ?ms. \<forall>b\<in>set ?ms. \<forall>g. base g = base f \<and> fsize g = fsize f \<longrightarrow>
            FileSet_File [g] (End a) = Some 0 \<and> FileSet_File [g] (Pos b) = Some 0"
  proof (intro ballI allI impI)
    fix a b and g :: File
    assume a: "a \<in> set ?ms" and b: "b \<in> set ?ms" and g: "base g = base f \<and> fsize g = fsize f"
    from inf a b have "inFile f (End a)" "inFile f (Pos b)"
      by (simp_all add: spansInFile_def list_all_iff)
    with g have "inFile g (End a)" "inFile g (Pos b)" by (simp_all add: inFile_def)
    moreover from g assms(1) have "1 \<le> base g" by simp
    ultimately show "FileSet_File [g] (End a) = Some 0 \<and> FileSet_File [g] (Pos b) = Some 0"
      using FileSet_File_single by blast
  qed
qed

theorem squash_files_never_unequal_witness:
  "1 \<le> base exFileComment
   \<and> inFile exFileComment 22 \<and> inFile exFileComment 25
   \<and> inFile exFileComment 29 \<and> inFile exFileComment 33
   \<and> inFile exFileComment 36 \<and> inFile exFileComment 39
   \<and> squashBlankImportLines [exFileComment] 19 40 [ImportSpec 22 25, ImportSpec 36 39] [CommentGroup 29 33]
       \<noteq> Inl PanicFilesUnequal"
proof -
  have b: "1 \<le> base exFileComment" by code_simp
  have p: "inFile exFileComment 22" "inFile exFileComment 25" "inFile exFileComment 29"
    "inFile exFileComment 33" "inFile exFileComment 36" "inFile exFileComment 39"
    by (simp_all add: inFile_def exFileComment_def)
  have i: "\<forall>s\<in>set [ImportSpec 22 25, ImportSpec 36 39].
             inFile exFileComment (imp_Pos s) \<and> inFile exFileComment (imp_End s)"
    using p by simp
  have c: "\<forall>g\<in>set [CommentGroup 29 33]. inFile exFileComment (cm_Pos g) \<and> inFile exFileComment (cm_End g)"
    using p by simp
  from squash_files_never_unequal [OF b i c, of 19 40]
  have "squashBlankImportLines [exFileComment] 19 40 [ImportSpec 22 25, ImportSpec 36 39] [CommentGroup 29 33]
       \<noteq> Inl PanicFilesUnequal" by (rule conjunct1)
  with b p show ?thesis by simp
qed

end
